theory Spec2Isabelle
  imports Main "HOL-Library.Sublist" "HOL-Library.Multiset"
begin

section \<open>Python strings\<close>

text \<open>
  The three scripts (\<^verbatim>\<open>final-fix.py\<close>, \<^verbatim>\<open>fix-encoding-complete.py\<close> and
  \<^verbatim>\<open>fix-final-encoding.py\<close>) work on Python \<^verbatim>\<open>str\<close> values, which are sequences of
  Unicode code points. A string is modelled as the list of its code points; the string
  literals of the scripts are written out code point by code point (hexadecimal).
  The operations are polymorphic in the element type, since nothing in them depends on
  what a code point is.
\<close>

type_synonym ustring = "nat list"

text \<open>\<^verbatim>\<open>sub in s\<close>: \<^verbatim>\<open>sub\<close> occurs in \<^verbatim>\<open>s\<close> as a contiguous substring.\<close>

fun contains :: "'a list \<Rightarrow> 'a list \<Rightarrow> bool" where
  "contains [] sub = (sub = [])"
| "contains (x # xs) sub = (prefix sub (x # xs) \<or> contains xs sub)"

text \<open>
  \<^verbatim>\<open>s.replace(old, new)\<close>: every occurrence of \<^verbatim>\<open>old\<close> found by a scan from the left,
  each match resuming after the matched text, is replaced by \<^verbatim>\<open>new\<close>. For an empty
  \<^verbatim>\<open>old\<close> Python inserts \<^verbatim>\<open>new\<close> before every character and at the end.
\<close>

function replace :: "'a list \<Rightarrow> 'a list \<Rightarrow> 'a list \<Rightarrow> 'a list" where
  "replace [] old new = (if old = [] then new else [])"
| "replace (x # xs) old new =
     (if old = [] then new @ x # replace xs old new
      else if prefix old (x # xs) then new @ replace (drop (length old) (x # xs)) old new
      else x # replace xs old new)"
  by pat_completeness auto
termination
  by (relation "measure (\<lambda>(s, old, new). length s)") (auto simp: neq_Nil_conv)

text \<open>
  \<^verbatim>\<open>s.count(sub)\<close>: the number of non-overlapping occurrences found by the same scan;
  \<^verbatim>\<open>len(s) + 1\<close> for an empty \<^verbatim>\<open>sub\<close>.
\<close>

function count_str :: "'a list \<Rightarrow> 'a list \<Rightarrow> nat" where
  "count_str [] sub = (if sub = [] then 1 else 0)"
| "count_str (x # xs) sub =
     (if sub = [] then Suc (count_str xs sub)
      else if prefix sub (x # xs) then Suc (count_str (drop (length sub) (x # xs)) sub)
      else count_str xs sub)"
  by pat_completeness auto
termination
  by (relation "measure (\<lambda>(s, sub). length s)") (auto simp: neq_Nil_conv)

section \<open>The substitution tables and patch literals\<close>

text \<open>
  A table is the ordered list of its (broken, corrected) pairs: the dictionaries of
  \<^verbatim>\<open>final-fix.py\<close> and \<^verbatim>\<open>fix-encoding-complete.py\<close> are iterated in insertion order and
  have no repeated key, and \<^verbatim>\<open>fix-final-encoding.py\<close> uses a list of pairs.
\<close>

type_synonym table = "(ustring \<times> ustring) list"

text \<open>\<^verbatim>\<open>fixes\<close> of \<^verbatim>\<open>final-fix.py\<close> (lines 10 to 15).\<close>

definition final_fix_fixes :: table where
  "final_fix_fixes =
    [([0x5A34, 0x5B2D, 0x762F, 0x5A34, 0x4F79, 0x6309, 0x7EFE, 0x8DE8, 0x941E, 0x3F, 0x2F,
        0x68, 0x32, 0x3E],
      [0x6D4B, 0x8BD5, 0x6D41, 0x6C34, 0x7EBF, 0x7BA1, 0x7406, 0x3C, 0x2F, 0x68, 0x32, 0x3E]),
     ([0x6769, 0x612F, 0x6D93, 0x3F],
      [0x8FD0, 0x884C, 0x4E2D]),
     ([0x6267, 0x884C, 0x5A34, 0x4F79, 0x6309, 0x7EFE, 0x3F],
      [0x6267, 0x884C, 0x6D41, 0x6C34, 0x7EBF]),
     ([0x6D93, 0x6362, 0x9354, 0x3F, 0x2F, 0x73, 0x70, 0x61, 0x6E, 0x3E],
      [0x4E2A, 0x4EFB, 0x52A1, 0x3C, 0x2F, 0x73, 0x70, 0x61, 0x6E, 0x3E])]"

text \<open>\<^verbatim>\<open>replacements\<close> of \<^verbatim>\<open>fix-encoding-complete.py\<close> (lines 15 to 54), 29 entries.\<close>

definition replacements :: table where
  "replacements =
    [([0x5A34, 0x5B2D, 0x762F, 0x5A34, 0x4F79, 0x6309, 0x7EFE, 0x8DE8, 0x941E, 0x3F, 0x2F,
        0x68, 0x32, 0x3E],
      [0x6D4B, 0x8BD5, 0x6D41, 0x6C34, 0x7EBF, 0x7BA1, 0x7406, 0x3C, 0x2F, 0x68, 0x32, 0x3E]),
     ([0x6769, 0x612F, 0x6D93, 0x3F],
      [0x8FD0, 0x884C, 0x4E2D]),
     ([0x93BA, 0x6397, 0x69E6, 0x6D93, 0x3F],
      [0x6392, 0x961F, 0x4E2D]),
     ([0x9352, 0x6D98, 0x7F13, 0x5A34, 0x4F79, 0x6309, 0x7EFE, 0x3F, 0x2F, 0x73, 0x70, 0x61,
        0x6E, 0x3E],
      [0x521B, 0x5EFA, 0x6D41, 0x6C34, 0x7EBF, 0x3C, 0x2F, 0x73, 0x70, 0x61, 0x6E, 0x3E]),
     ([0x5A34, 0x4F79, 0x6309, 0x7EFE, 0x57AE, 0x57AA, 0x741B, 0x3F, 0x2F, 0x68, 0x33, 0x3E],
      [0x6D41, 0x6C34, 0x7EBF, 0x5217, 0x8868, 0x3C, 0x2F, 0x68, 0x33, 0x3E]),
     ([0x6267, 0x884C, 0x5A34, 0x4F79, 0x6309, 0x7EFE, 0x3F],
      [0x6267, 0x884C, 0x6D41, 0x6C34, 0x7EBF]),
     ([0x93B5, 0x446, 0x5A34, 0x4F79, 0x6309, 0x7EFE, 0x3F],
      [0x6267, 0x884C, 0x6D41, 0x6C34, 0x7EBF]),
     ([0x5220, 0x9664, 0x6D41, 0x6C34, 0x7EBF],
      [0x5220, 0x9664, 0x6D41, 0x6C34, 0x7EBF]),
     ([0x9352, 0x72BB, 0x6ACE, 0x5A34, 0x4F79, 0x6309, 0x7EFE, 0x3F],
      [0x5220, 0x9664, 0x6D41, 0x6C34, 0x7EBF]),
     ([0x6D93, 0x6362, 0x9354, 0x3F, 0x2F, 0x73, 0x70, 0x61, 0x6E, 0x3E],
      [0x4E2A, 0x4EFB, 0x52A1, 0x3C, 0x2F, 0x73, 0x70, 0x61, 0x6E, 0x3E]),
     ([0x7039, 0x6C2D, 0x6902, 0x93B5, 0x446],
      [0x5B9A, 0x65F6, 0x6267, 0x884C]),
     ([0x95AB, 0x6C31, 0x7161],
      [0x901A, 0x77E5]),
     ([0x93B5, 0x446],
      [0x6267, 0x884C]),
     ([0x95B0, 0x5D87, 0x7586],
      [0x914D, 0x7F6E]),
     ([0x6D60, 0x8BF2, 0x59DF, 0x5A34, 0x4F7A, 0x25BC],
      [0x4EFB, 0x52A1, 0x6D41, 0x7A0B]),
     ([0x6E1A, 0x6FCA, 0x7986, 0x6D5C, 0x3F],
      [0x4F9D, 0x8D56, 0x4E8E]),
     ([0x5BEE, 0x20AC, 0x6FEE, 0x3F],
      [0x5F00, 0x59CB]),
     ([0x9470, 0x6941, 0x6902, 0x3A],
      [0x8017, 0x65F6, 0x3A]),
     ([0x95B2, 0x5D88, 0x762F, 0x3A],
      [0x91CD, 0x8BD5, 0x3A]),
     ([0x5A06, 0x3F, 0x2F, 0x73, 0x70, 0x61, 0x6E, 0x3E],
      [0x6B21, 0x3C, 0x2F, 0x73, 0x70, 0x61, 0x6E, 0x3E]),
     ([0x7490, 0x3129, 0x567A, 0x95C2, 0x3127],
      [0x8D28, 0x91CF, 0x95E8, 0x63A7]),
     ([0x95AB, 0x6C31, 0x7161, 0x95B0, 0x5D87, 0x7586],
      [0x901A, 0x77E5, 0x914D, 0x7F6E]),
     ([0x95AB, 0x590B, 0x5AE8, 0x6D93, 0x20AC, 0x6D93, 0x7966, 0x59D8, 0x5BF8, 0x568E],
      [0x9009, 0x62E9, 0x4E00, 0x4E2A, 0x6D41, 0x6C34, 0x7EBF]),
     ([0x6D60, 0x5EA1, 0x4E4F, 0x6E1A, 0x443, 0x57AA, 0x741B, 0x3124, 0x8151, 0x95AB, 0x590B,
        0x5AE8, 0x6D93, 0x20AC, 0x6D93, 0x7966, 0x59D8, 0x5BF8, 0x568E, 0x93C9, 0x30E6, 0x7161,
        0x942A, 0x5B2D, 0x7F01, 0x55D5, 0x4FCA, 0x93AD, 0x62F0, 0x7EE0, 0xFF04, 0x608A, 0x95B0,
        0x5D87, 0x7586],
      [0x4ECE, 0x5DE6, 0x4FA7, 0x5217, 0x8868, 0x4E2D, 0x9009, 0x62E9, 0x4E00, 0x4E2A, 0x6D41,
        0x6C34, 0x7EBF, 0x6765, 0x67E5, 0x770B, 0x8BE6, 0x7EC6, 0x4FE1, 0x606F, 0x548C, 0x7BA1,
        0x7406, 0x914D, 0x7F6E]),
     ([0x9352, 0x6D98, 0x7F13, 0x93C2, 0x7248, 0x7966, 0x59D8, 0x5BF8, 0x568E],
      [0x521B, 0x5EFA, 0x65B0, 0x6D41, 0x6C34, 0x7EBF]),
     ([0x9359, 0x6828, 0x79F7],
      [0x53D6, 0x6D88]),
     ([0x73, 0x77, 0x69, 0x74, 0x63, 0x68, 0x9354, 0x71BB, 0x5158, 0x9351, 0x82A5, 0x669F],
      [0x73, 0x77, 0x69, 0x74, 0x63, 0x68, 0x529F, 0x80FD, 0x51FD, 0x6570]),
     ([0x9359, 0x509B, 0x669F, 0x7035, 0x7845, 0x8584],
      [0x53C2, 0x6570, 0x5BF9, 0x8C61]),
     ([0x6769, 0x65BF, 0x6D16, 0x7F01, 0x64B4, 0x7049],
      [0x8FD4, 0x56DE, 0x7ED3, 0x679C])]"

text \<open>\<^verbatim>\<open>fixes\<close> of \<^verbatim>\<open>fix-final-encoding.py\<close> (lines 17 to 22).\<close>

definition final_encoding_fixes :: table where
  "final_encoding_fixes =
    [([0x5A34, 0x5B2D, 0x762F, 0x5A34, 0x4F79, 0x6309, 0x7EFE, 0x8DE8, 0x941E, 0x3F, 0x2F,
        0x68, 0x32, 0x3E],
      [0x6D4B, 0x8BD5, 0x6D41, 0x6C34, 0x7EBF, 0x7BA1, 0x7406, 0x3C, 0x2F, 0x68, 0x32, 0x3E]),
     ([0x6769, 0x612F, 0x6D93, 0x3F],
      [0x8FD0, 0x884C, 0x4E2D]),
     ([0x6267, 0x884C, 0x5A34, 0x4F79, 0x6309, 0x7EFE, 0x3F],
      [0x6267, 0x884C, 0x6D41, 0x6C34, 0x7EBF, 0x22]),
     ([0x6D93, 0x6362, 0x9354, 0x3F, 0x2F, 0x73, 0x70, 0x61, 0x6E, 0x3E],
      [0x4E2A, 0x4EFB, 0x52A1, 0x3C, 0x2F, 0x73, 0x70, 0x61, 0x6E, 0x3E])]"

text \<open>
  The attribute literals of the dangling-quote patches: \<^verbatim>\<open>old_181\<close>, \<^verbatim>\<open>new_181\<close>,
  \<^verbatim>\<open>old_191\<close> and \<^verbatim>\<open>new_191\<close> of \<^verbatim>\<open>fix-encoding-complete.py\<close> (lines 66 to 75);
  \<^verbatim>\<open>final-fix.py\<close> writes the first two inline (lines 25 and 26). Code point
  \<open>0x22\<close> is the double quote.
\<close>

definition old_181 :: ustring where
  "old_181 =
    [0x74, 0x69, 0x74, 0x6C, 0x65, 0x3D, 0x22, 0x6267, 0x884C, 0x6D41, 0x6C34, 0x7EBF]"

definition new_181 :: ustring where
  "new_181 =
    [0x74, 0x69, 0x74, 0x6C, 0x65, 0x3D, 0x22, 0x6267, 0x884C, 0x6D41, 0x6C34, 0x7EBF, 0x22]"

definition old_191 :: ustring where
  "old_191 =
    [0x74, 0x69, 0x74, 0x6C, 0x65, 0x3D, 0x22, 0x5220, 0x9664, 0x6D41, 0x6C34, 0x7EBF]"

definition new_191 :: ustring where
  "new_191 =
    [0x74, 0x69, 0x74, 0x6C, 0x65, 0x3D, 0x22, 0x5220, 0x9664, 0x6D41, 0x6C34, 0x7EBF, 0x22]"

text \<open>The template block of \<^verbatim>\<open>fix-encoding-complete.py\<close> (lines 82 to 90).\<close>

definition old_template :: ustring where
  "old_template =
    [0x20, 0x20, 0x20, 0x20, 0x20, 0x20, 0x20, 0x20, 0x20, 0x20, 0x20, 0x20, 0x20, 0x20, 0x20,
     0x20, 0x7B, 0x20, 0x69, 0x64, 0x3A, 0x20, 0x27, 0x63, 0x69, 0x63, 0x64, 0x27, 0x2C, 0x20,
     0x6E, 0x61, 0x6D, 0x65, 0x3A, 0x20, 0x27, 0x43, 0x49, 0x2F, 0x43, 0x44, 0x20, 0x5A34,
     0x4F79, 0x6309, 0x7EFE, 0x3F, 0x2C, 0x20, 0x64, 0x65, 0x73, 0x63, 0x72, 0x69, 0x70, 0x74,
     0x69, 0x6F, 0x6E, 0x3A, 0x20, 0x27, 0x93CD, 0x56E7, 0x566F, 0x9428, 0x52EC, 0x5BD4,
     0x7F01, 0x6CE6, 0x93B4, 0x612D, 0x7974, 0x7487, 0x66DF, 0x7966, 0x7ECB, 0x3F, 0x20, 0x7D,
     0x2C, 0x0A, 0x20, 0x20, 0x20, 0x20, 0x20, 0x20, 0x20, 0x20, 0x20, 0x20, 0x20, 0x20, 0x20,
     0x20, 0x20, 0x20, 0x7B, 0x20, 0x69, 0x64, 0x3A, 0x20, 0x27, 0x6D, 0x6F, 0x6E, 0x69, 0x74,
     0x6F, 0x72, 0x69, 0x6E, 0x67, 0x27, 0x2C, 0x20, 0x6E, 0x61, 0x6D, 0x65, 0x3A, 0x20, 0x27,
     0x9429, 0x621E, 0x5E36, 0x5A34, 0x4F79, 0x6309, 0x7EFE, 0x3F, 0x2C, 0x20, 0x64, 0x65,
     0x73, 0x63, 0x72, 0x69, 0x70, 0x74, 0x69, 0x6F, 0x6E, 0x3A, 0x20, 0x27, 0x9422, 0x71B6,
     0x9A87, 0x941C, 0x9429, 0x621E, 0x5E36, 0x5A34, 0x5B2D, 0x762F, 0x27, 0x20, 0x7D, 0x2C,
     0x0A, 0x20, 0x20, 0x20, 0x20, 0x20, 0x20, 0x20, 0x20, 0x20, 0x20, 0x20, 0x20, 0x20, 0x20,
     0x20, 0x20, 0x7B, 0x20, 0x69, 0x64, 0x3A, 0x20, 0x27, 0x72, 0x65, 0x67, 0x72, 0x65, 0x73,
     0x73, 0x69, 0x6F, 0x6E, 0x27, 0x2C, 0x20, 0x6E, 0x61, 0x6D, 0x65, 0x3A, 0x20, 0x27,
     0x9365, 0x70B2, 0x7D8A, 0x5A34, 0x5B2D, 0x762F, 0x5A34, 0x4F79, 0x6309, 0x7EFE, 0x3F,
     0x2C, 0x20, 0x64, 0x65, 0x73, 0x63, 0x72, 0x69, 0x70, 0x74, 0x69, 0x6F, 0x6E, 0x3A, 0x20,
     0x27, 0x7039, 0x5C7E, 0x66A3, 0x9428, 0x52EB, 0x6D16, 0x8930, 0x6393, 0x7974, 0x7487,
     0x66DE, 0x6D60, 0x3F, 0x20, 0x7D, 0x2C, 0x0A, 0x20, 0x20, 0x20, 0x20, 0x20, 0x20, 0x20,
     0x20, 0x20, 0x20, 0x20, 0x20, 0x20, 0x20, 0x20, 0x20, 0x7B, 0x20, 0x69, 0x64, 0x3A, 0x20,
     0x27, 0x73, 0x65, 0x63, 0x75, 0x72, 0x69, 0x74, 0x79, 0x27, 0x2C, 0x20, 0x6E, 0x61, 0x6D,
     0x65, 0x3A, 0x20, 0x27, 0x7039, 0x590A, 0x53CF, 0x5A34, 0x5B2D, 0x762F, 0x5A34, 0x4F79,
     0x6309, 0x7EFE, 0x3F, 0x2C, 0x20, 0x64, 0x65, 0x73, 0x63, 0x72, 0x69, 0x70, 0x74, 0x69,
     0x6F, 0x6E, 0x3A, 0x20, 0x27, 0x934F, 0x3129, 0x6F70, 0x9428, 0x52EB, 0x7568, 0x934F,
     0x3126, 0x7974, 0x7487, 0x66DF, 0x7966, 0x7ECB, 0x3F, 0x20, 0x7D]"

definition new_template :: ustring where
  "new_template =
    [0x20, 0x20, 0x20, 0x20, 0x20, 0x20, 0x20, 0x20, 0x20, 0x20, 0x20, 0x20, 0x20, 0x20, 0x20,
     0x20, 0x7B, 0x20, 0x69, 0x64, 0x3A, 0x20, 0x27, 0x63, 0x69, 0x63, 0x64, 0x27, 0x2C, 0x20,
     0x6E, 0x61, 0x6D, 0x65, 0x3A, 0x20, 0x27, 0x43, 0x49, 0x2F, 0x43, 0x44, 0x20, 0x6D41,
     0x6C34, 0x7EBF, 0x27, 0x2C, 0x20, 0x64, 0x65, 0x73, 0x63, 0x72, 0x69, 0x70, 0x74, 0x69,
     0x6F, 0x6E, 0x3A, 0x20, 0x27, 0x6807, 0x51C6, 0x7684, 0x6301, 0x7EED, 0x96C6, 0x6210,
     0x6D4B, 0x8BD5, 0x6D41, 0x7A0B, 0x27, 0x20, 0x7D, 0x2C, 0x0A, 0x20, 0x20, 0x20, 0x20,
     0x20, 0x20, 0x20, 0x20, 0x20, 0x20, 0x20, 0x20, 0x20, 0x20, 0x20, 0x20, 0x7B, 0x20, 0x69,
     0x64, 0x3A, 0x20, 0x27, 0x6D, 0x6F, 0x6E, 0x69, 0x74, 0x6F, 0x72, 0x69, 0x6E, 0x67, 0x27,
     0x2C, 0x20, 0x6E, 0x61, 0x6D, 0x65, 0x3A, 0x20, 0x27, 0x76D1, 0x63A7, 0x6D41, 0x6C34,
     0x7EBF, 0x27, 0x2C, 0x20, 0x64, 0x65, 0x73, 0x63, 0x72, 0x69, 0x70, 0x74, 0x69, 0x6F,
     0x6E, 0x3A, 0x20, 0x27, 0x751F, 0x4EA7, 0x73AF, 0x5883, 0x76D1, 0x63A7, 0x6D4B, 0x8BD5,
     0x27, 0x20, 0x7D, 0x2C, 0x0A, 0x20, 0x20, 0x20, 0x20, 0x20, 0x20, 0x20, 0x20, 0x20, 0x20,
     0x20, 0x20, 0x20, 0x20, 0x20, 0x20, 0x7B, 0x20, 0x69, 0x64, 0x3A, 0x20, 0x27, 0x72, 0x65,
     0x67, 0x72, 0x65, 0x73, 0x73, 0x69, 0x6F, 0x6E, 0x27, 0x2C, 0x20, 0x6E, 0x61, 0x6D, 0x65,
     0x3A, 0x20, 0x27, 0x56DE, 0x5F52, 0x6D4B, 0x8BD5, 0x6D41, 0x6C34, 0x7EBF, 0x27, 0x2C,
     0x20, 0x64, 0x65, 0x73, 0x63, 0x72, 0x69, 0x70, 0x74, 0x69, 0x6F, 0x6E, 0x3A, 0x20, 0x27,
     0x5B8C, 0x6574, 0x7684, 0x56DE, 0x5F52, 0x6D4B, 0x8BD5, 0x5957, 0x4EF6, 0x27, 0x20, 0x7D,
     0x2C, 0x0A, 0x20, 0x20, 0x20, 0x20, 0x20, 0x20, 0x20, 0x20, 0x20, 0x20, 0x20, 0x20, 0x20,
     0x20, 0x20, 0x20, 0x7B, 0x20, 0x69, 0x64, 0x3A, 0x20, 0x27, 0x73, 0x65, 0x63, 0x75, 0x72,
     0x69, 0x74, 0x79, 0x27, 0x2C, 0x20, 0x6E, 0x61, 0x6D, 0x65, 0x3A, 0x20, 0x27, 0x5B89,
     0x5168, 0x6D4B, 0x8BD5, 0x6D41, 0x6C34, 0x7EBF, 0x27, 0x2C, 0x20, 0x64, 0x65, 0x73, 0x63,
     0x72, 0x69, 0x70, 0x74, 0x69, 0x6F, 0x6E, 0x3A, 0x20, 0x27, 0x5168, 0x9762, 0x7684,
     0x5B89, 0x5168, 0x6D4B, 0x8BD5, 0x6D41, 0x7A0B, 0x27, 0x20, 0x7D]"

text \<open>The path every script hardcodes.\<close>

definition file_path :: ustring where
  "file_path =
    [0x44, 0x3A, 0x5C, 0x6D, 0x79, 0x70, 0x72, 0x6F, 0x6A, 0x65, 0x63, 0x74, 0x5C, 0x54, 0x65,
     0x73, 0x74, 0x2D, 0x57, 0x65, 0x62, 0x5C, 0x66, 0x72, 0x6F, 0x6E, 0x74, 0x65, 0x6E, 0x64,
     0x5C, 0x63, 0x6F, 0x6D, 0x70, 0x6F, 0x6E, 0x65, 0x6E, 0x74, 0x73, 0x5C, 0x70, 0x69, 0x70,
     0x65, 0x6C, 0x69, 0x6E, 0x65, 0x5C, 0x50, 0x69, 0x70, 0x65, 0x6C, 0x69, 0x6E, 0x65, 0x4D,
     0x61, 0x6E, 0x61, 0x67, 0x65, 0x6D, 0x65, 0x6E, 0x74, 0x2E, 0x74, 0x73, 0x78]"

section \<open>The remediation passes\<close>

text \<open>
  The loop of \<^verbatim>\<open>final-fix.py\<close> (lines 17 to 22) and of \<^verbatim>\<open>fix-encoding-complete.py\<close>
  (lines 57 to 62): an entry whose key is in the content replaces every occurrence and
  adds one to the counter (\<^verbatim>\<open>count\<close> and \<^verbatim>\<open>replaced_count\<close> in the scripts, \<open>cnt\<close>
  here). The printed log lines are not modelled.
\<close>

fun fix_loop :: "table \<Rightarrow> ustring \<times> nat \<Rightarrow> ustring \<times> nat" where
  "fix_loop [] (content, cnt) = (content, cnt)"
| "fix_loop ((old, new) # rest) (content, cnt) =
     (if contains content old
      then fix_loop rest (replace content old new, cnt + 1)
      else fix_loop rest (content, cnt))"

text \<open>
  The loop of \<^verbatim>\<open>fix-final-encoding.py\<close> (lines 25 to 34): the counter grows by
  \<^verbatim>\<open>content.count(old)\<close>, taken before the replacement.
\<close>

fun fix_loop_counting :: "table \<Rightarrow> ustring \<times> nat \<Rightarrow> ustring \<times> nat" where
  "fix_loop_counting [] (content, fixed_count) = (content, fixed_count)"
| "fix_loop_counting ((old, new) # rest) (content, fixed_count) =
     (if contains content old
      then fix_loop_counting rest
             (replace content old new, fixed_count + count_str content old)
      else fix_loop_counting rest (content, fixed_count))"

text \<open>\<^verbatim>\<open>final-fix.py\<close>, lines 10 to 28: the table, then the closing quote of line 181.\<close>

definition final_fix :: "ustring \<Rightarrow> ustring \<times> nat" where
  "final_fix content0 =
     (let (content, cnt) = fix_loop final_fix_fixes (content0, 0) in
      if contains content old_181 \<and> \<not> contains content new_181
      then (replace content old_181 new_181, cnt + 1)
      else (content, cnt))"

text \<open>
  \<^verbatim>\<open>fix-encoding-complete.py\<close>: the three special cases after the table, each as the
  step it is in the script. The guards of the quote patches test \<^verbatim>\<open>old + '"'\<close>.
\<close>

definition quote_181 :: "ustring \<times> nat \<Rightarrow> ustring \<times> nat" where
  "quote_181 = (\<lambda>(content, replaced_count).
     if contains content old_181 \<and> \<not> contains content (old_181 @ [0x22])
     then (replace content old_181 new_181, replaced_count + 1)
     else (content, replaced_count))"

definition quote_191 :: "ustring \<times> nat \<Rightarrow> ustring \<times> nat" where
  "quote_191 = (\<lambda>(content, replaced_count).
     if contains content old_191 \<and> \<not> contains content (old_191 @ [0x22])
     then (replace content old_191 new_191, replaced_count + 1)
     else (content, replaced_count))"

definition template_block :: "ustring \<times> nat \<Rightarrow> ustring \<times> nat" where
  "template_block = (\<lambda>(content, replaced_count).
     if contains content old_template
     then (replace content old_template new_template, replaced_count + 4)
     else (content, replaced_count))"

definition fix_encoding_complete :: "ustring \<Rightarrow> ustring \<times> nat" where
  "fix_encoding_complete content0 =
     template_block (quote_191 (quote_181 (fix_loop replacements (content0, 0))))"

text \<open>\<^verbatim>\<open>fix-final-encoding.py\<close>, lines 17 to 34: the table only.\<close>

definition fix_final_encoding :: "ustring \<Rightarrow> ustring \<times> nat" where
  "fix_final_encoding content0 = fix_loop_counting final_encoding_fixes (content0, 0)"

section \<open>Running a script on a disk\<close>

text \<open>
  Every script reads the file at \<^verbatim>\<open>file_path\<close> with \<^verbatim>\<open>codecs.open(..., 'r', encoding='utf-8')\<close>,
  transforms the text, and writes it back with \<^verbatim>\<open>codecs.open(..., 'w', encoding='utf-8')\<close>.
  An exception is not caught anywhere, so it ends the run at the statement that raised
  it. The disk is a map from paths to files; the UTF-8 codec belongs to Python's
  library and is a parameter of the run (\<open>decode\<close> gives \<open>None\<close> where the read raises
  \<^verbatim>\<open>UnicodeDecodeError\<close>); the codec itself is modelled below.
\<close>

datatype io_error = FileNotFound | PermissionDenied | DecodeError

datatype disk_file = Missing | File (readable: bool) (writable: bool) (bytes: "nat list")

type_synonym disk = "ustring \<Rightarrow> disk_file"

definition read_text :: "(nat list \<Rightarrow> ustring option) \<Rightarrow> disk \<Rightarrow> ustring \<Rightarrow> io_error + ustring" where
  "read_text decode d path =
     (case d path of
        Missing \<Rightarrow> Inl FileNotFound
      | File r w bs \<Rightarrow>
          if \<not> r then Inl PermissionDenied
          else (case decode bs of None \<Rightarrow> Inl DecodeError | Some text \<Rightarrow> Inr text))"

definition write_text :: "(ustring \<Rightarrow> nat list) \<Rightarrow> disk \<Rightarrow> ustring \<Rightarrow> ustring \<Rightarrow> io_error + disk" where
  "write_text encode d path text =
     (case d path of
        Missing \<Rightarrow> Inr (d(path := File True True (encode text)))
      | File r w bs \<Rightarrow>
          if \<not> w then Inl PermissionDenied
          else Inr (d(path := File r w (encode text))))"

text \<open>
  A run: load, transform, save, report. The result is the reported count or the error
  that ended the run, together with the disk the run leaves behind.
\<close>

definition run_script ::
  "(ustring \<Rightarrow> ustring \<times> nat) \<Rightarrow> (nat list \<Rightarrow> ustring option) \<Rightarrow> (ustring \<Rightarrow> nat list) \<Rightarrow>
   disk \<Rightarrow> (io_error + nat) \<times> disk" where
  "run_script transform decode encode d =
     (case read_text decode d file_path of
        Inl e \<Rightarrow> (Inl e, d)
      | Inr content0 \<Rightarrow>
          (case transform content0 of (content, cnt) \<Rightarrow>
             (case write_text encode d file_path content of
                Inl e \<Rightarrow> (Inl e, d)
              | Inr d' \<Rightarrow> (Inr cnt, d'))))"

section \<open>The UTF-8 codec of the read and the write\<close>

text \<open>
  \<^verbatim>\<open>codecs.open(path, 'r', encoding='utf-8')\<close> gives a stream reader, and \<^verbatim>\<open>f.read()\<close> on
  it decodes the bytes of the file with the incremental UTF-8 decoder of Python's library,
  which is not told that the data has ended. An ill-formed sequence raises
  \<^verbatim>\<open>UnicodeDecodeError\<close> (here \<open>None\<close>); a sequence that is well formed as far as it
  goes but is cut short by the end of the file does not raise: the reader keeps its bytes
  in a buffer and returns the text decoded before it. The well-formed sequences are those
  of the Unicode standard: no overlong forms, no surrogates, nothing above U+10FFFF. The
  bytes that are present are checked before a sequence counts as cut short, except that
  the first two bytes of a surrogate at the very end of the data count as cut short.
\<close>

definition continuation :: "nat \<Rightarrow> bool" where
  "continuation b = (0x80 \<le> b \<and> b < 0xC0)"

fun utf8_stream_decode :: "nat list \<Rightarrow> ustring option" where
  "utf8_stream_decode [] = Some []"
| "utf8_stream_decode (b0 # bs) =
     (if b0 < 0x80 then map_option ((#) b0) (utf8_stream_decode bs)
      else if b0 < 0xC2 then None
      else if b0 < 0xE0 then
        (case bs of
           [] \<Rightarrow> Some []
         | b1 # r1 \<Rightarrow>
             if \<not> continuation b1 then None
             else map_option ((#) ((b0 - 0xC0) * 0x40 + (b1 - 0x80))) (utf8_stream_decode r1))
      else if b0 < 0xF0 then
        (case bs of
           [] \<Rightarrow> Some []
         | b1 # r1 \<Rightarrow>
             if \<not> continuation b1 \<or> (if b1 < 0xA0 then b0 = 0xE0 else b0 = 0xED) then
               (if b0 = 0xED \<and> r1 = [] \<and> 0xA0 \<le> b1 \<and> b1 < 0xC0 then Some [] else None)
             else
               (case r1 of
                  [] \<Rightarrow> Some []
                | b2 # r2 \<Rightarrow>
                    if \<not> continuation b2 then None
                    else map_option
                           ((#) ((b0 - 0xE0) * 0x1000 + (b1 - 0x80) * 0x40 + (b2 - 0x80)))
                           (utf8_stream_decode r2)))
      else if b0 < 0xF5 then
        (case bs of
           [] \<Rightarrow> Some []
         | b1 # r1 \<Rightarrow>
             if \<not> continuation b1 \<or> (if b1 < 0x90 then b0 = 0xF0 else b0 = 0xF4) then None
             else
               (case r1 of
                  [] \<Rightarrow> Some []
                | b2 # r2 \<Rightarrow>
                    if \<not> continuation b2 then None
                    else
                      (case r2 of
                         [] \<Rightarrow> Some []
                       | b3 # r3 \<Rightarrow>
                           if \<not> continuation b3 then None
                           else map_option
                                  ((#) ((b0 - 0xF0) * 0x40000 + (b1 - 0x80) * 0x1000 +
                                        (b2 - 0x80) * 0x40 + (b3 - 0x80)))
                                  (utf8_stream_decode r3))))
      else None)"

text \<open>
  \<^verbatim>\<open>f.write(content)\<close> on the stream writer encodes every code point. Encoding raises
  only for a surrogate code point; the text a script writes is decoded text with literals
  of the script replaced in, and neither holds one.
\<close>

definition utf8_encode_char :: "nat \<Rightarrow> nat list" where
  "utf8_encode_char c =
     (if c < 0x80 then [c]
      else if c < 0x800 then [0xC0 + c div 0x40, 0x80 + c mod 0x40]
      else if c < 0x10000 then
        [0xE0 + c div 0x1000, 0x80 + c div 0x40 mod 0x40, 0x80 + c mod 0x40]
      else
        [0xF0 + c div 0x40000, 0x80 + c div 0x1000 mod 0x40, 0x80 + c div 0x40 mod 0x40,
         0x80 + c mod 0x40])"

definition utf8_encode :: "ustring \<Rightarrow> nat list" where
  "utf8_encode s = concat (map utf8_encode_char s)"

section \<open>Overlap analysis of keys and replacements\<close>

text \<open>
  Whether a replacement can create, remove or destroy an occurrence of a string \<open>w\<close>
  depends only on how \<open>w\<close> can overlap the replaced and the inserted text. The predicates
  below are computed from the literals alone.
\<close>

definition comparable :: "'a list \<Rightarrow> 'a list \<Rightarrow> bool" where
  "comparable a b = (prefix a b \<or> prefix b a)"

text \<open>
  \<open>starts_in u w\<close>: an occurrence of \<open>u\<close> can begin at some position of an occurrence of
  \<open>w\<close> (the first one included), running past its end or not.
\<close>

fun starts_in :: "'a list \<Rightarrow> 'a list \<Rightarrow> bool" where
  "starts_in u [] = False"
| "starts_in u (c # cs) = (comparable u (c # cs) \<or> starts_in u cs)"

text \<open>
  \<open>spill old w new\<close>: when an occurrence of \<open>w\<close> begins inside an inserted \<open>new\<close> and runs
  past its end, the input held \<open>old\<close> followed by the remainder of \<open>w\<close>; these are the
  candidates.
\<close>

fun spill :: "'a list \<Rightarrow> 'a list \<Rightarrow> 'a list \<Rightarrow> 'a list list" where
  "spill old w [] = []"
| "spill old w (c # cs) =
     (if prefix (c # cs) w \<and> c # cs \<noteq> w then [old @ drop (length (c # cs)) w] else [])
     @ spill old w cs"

text \<open>
  \<open>no_create A old new w\<close>: replacing \<open>old\<close> by \<open>new\<close> cannot create an occurrence of \<open>w\<close>
  in a text that holds none of the strings in \<open>A\<close>.
\<close>

definition no_create :: "'a list list \<Rightarrow> 'a list \<Rightarrow> 'a list \<Rightarrow> 'a list \<Rightarrow> bool" where
  "no_create A old new w =
     (\<not> starts_in new (tl w) \<and> \<not> contains new w \<and>
      list_all (\<lambda>b. list_ex (contains b) A) (spill old w new))"

text \<open>
  A cheaper sufficient test that \<open>w\<close> and \<open>u\<close> can never overlap, by single characters:
  \<open>w\<close> holds neither the first nor the last character of \<open>u\<close>, and holds a character
  of \<open>D\<close>, a list of characters that do not occur in \<open>u\<close>.
\<close>

definition far_apart :: "'a list \<Rightarrow> 'a list \<Rightarrow> 'a list \<Rightarrow> bool" where
  "far_apart D u w = (hd u \<notin> set w \<and> last u \<notin> set w \<and> list_ex (\<lambda>c. c \<in> set D) w)"

text \<open>\<open>no_self old new\<close>: after replacing \<open>old\<close> by \<open>new\<close> no occurrence of \<open>old\<close> is left.\<close>

definition no_self :: "'a list \<Rightarrow> 'a list \<Rightarrow> bool" where
  "no_self old new = (\<not> starts_in old new \<and> \<not> starts_in new (tl old))"

text \<open>\<open>no_destroy old w\<close>: no occurrence of \<open>old\<close> overlaps an occurrence of \<open>w\<close>.\<close>

definition no_destroy :: "'a list \<Rightarrow> 'a list \<Rightarrow> bool" where
  "no_destroy old w = (\<not> starts_in old w \<and> \<not> starts_in w (tl old))"

text \<open>
  \<open>table_ok A tbl\<close> walks a table in order: each key is absent once its entry has run, and
  no later entry brings back a key that is absent. An entry that maps a key to itself
  changes nothing and is skipped. \<open>absent_after\<close> lists the keys known to be absent at the
  end.
\<close>

fun table_ok :: "'a list list \<Rightarrow> ('a list \<times> 'a list) list \<Rightarrow> bool" where
  "table_ok A [] = True"
| "table_ok A ((old, new) # rest) =
     (old \<noteq> [] \<and>
      (if old = new then table_ok A rest
       else list_all (no_create A old new) A \<and> no_self old new \<and> table_ok (old # A) rest))"

fun absent_after :: "'a list list \<Rightarrow> ('a list \<times> 'a list) list \<Rightarrow> 'a list list" where
  "absent_after A [] = A"
| "absent_after A ((old, new) # rest) =
     (if old = new then absent_after A rest else absent_after (old # A) rest)"

text \<open>The effect of one table entry, and of one guarded quote patch, on the content.\<close>

definition apply_pair :: "'a list \<times> 'a list \<Rightarrow> 'a list \<Rightarrow> 'a list" where
  "apply_pair p c = replace c (fst p) (snd p)"

definition guarded :: "'a list \<Rightarrow> 'a list \<Rightarrow> 'a list \<Rightarrow> 'a list" where
  "guarded old new c = (if contains c old \<and> \<not> contains c new then replace c old new else c)"

text \<open>
  \<open>unclosed tok q s\<close>: \<open>s\<close> has an occurrence of \<open>tok\<close> that is not followed by the
  character \<open>q\<close>.
\<close>

fun unclosed :: "'a list \<Rightarrow> 'a \<Rightarrow> 'a list \<Rightarrow> bool" where
  "unclosed tok q [] = (tok = [])"
| "unclosed tok q (x # xs) =
     ((prefix tok (x # xs) \<and> \<not> prefix (tok @ [q]) (x # xs)) \<or> unclosed tok q xs)"

text \<open>
  \<open>commute_ok p q\<close>: no occurrence of the key of one entry can begin inside the key or
  the value of the other, and no value can begin strictly inside the other key; then the
  two replacements can be applied in either order.
\<close>

definition commute_ok :: "'a list \<times> 'a list \<Rightarrow> 'a list \<times> 'a list \<Rightarrow> bool" where
  "commute_ok p q =
     (fst p \<noteq> [] \<and> fst q \<noteq> [] \<and>
      \<not> starts_in (fst q) (snd p) \<and> \<not> starts_in (fst q) (fst p) \<and>
      \<not> starts_in (fst p) (snd q) \<and> \<not> starts_in (fst p) (fst q) \<and>
      \<not> starts_in (snd p) (tl (fst q)) \<and> \<not> starts_in (snd q) (tl (fst p)))"

definition pairwise_commute :: "('a list \<times> 'a list) list \<Rightarrow> bool" where
  "pairwise_commute tbl = list_all (\<lambda>p. list_all (\<lambda>q. p = q \<or> commute_ok p q) tbl) tbl"

text \<open>
  \<open>count_neutral old new w\<close>: no occurrence of \<open>w\<close> can lie across an end of an occurrence
  of \<open>old\<close> or of \<open>new\<close>; then replacing \<open>old\<close> by \<open>new\<close> changes the number of
  occurrences of \<open>w\<close> by what the two strings themselves hold. \<open>count_fixed tbl w\<close>: every
  entry of the table leaves the number of occurrences of \<open>w\<close> as it is.
\<close>

definition count_neutral :: "'a list \<Rightarrow> 'a list \<Rightarrow> 'a list \<Rightarrow> bool" where
  "count_neutral old new w =
     (w \<noteq> [] \<and> old \<noteq> [] \<and> \<not> starts_in old (tl w) \<and> \<not> starts_in new (tl w) \<and>
      spill [] w old = [] \<and> spill [] w new = [])"

definition count_fixed :: "('a list \<times> 'a list) list \<Rightarrow> 'a list \<Rightarrow> bool" where
  "count_fixed tbl w =
     list_all (\<lambda>p. count_neutral (fst p) (snd p) w \<and> count_str (fst p) w = count_str (snd p) w)
       tbl"

text \<open>
  \<open>entries_ok pre post\<close>: for each entry \<open>(k, v)\<close> of \<open>post\<close>, the entries before it
  leave the occurrences of \<open>k\<close> and of \<open>v\<close> alone, its own replacement turns each \<open>k\<close>
  into exactly one more \<open>v\<close>, and the entries after it leave the occurrences of \<open>v\<close> alone.
\<close>

definition entry_ok ::
  "('a list \<times> 'a list) list \<Rightarrow> 'a list \<Rightarrow> 'a list \<Rightarrow> ('a list \<times> 'a list) list \<Rightarrow> bool" where
  "entry_ok pre k v post =
     (count_fixed pre k \<and> count_fixed pre v \<and> count_neutral k v v \<and>
      count_str k v = 0 \<and> count_str v v = 1 \<and> count_fixed post v)"

fun entries_ok :: "('a list \<times> 'a list) list \<Rightarrow> ('a list \<times> 'a list) list \<Rightarrow> bool" where
  "entries_ok pre [] = True"
| "entries_ok pre ((k, v) # post) = (entry_ok pre k v post \<and> entries_ok (pre @ [(k, v)]) post)"

text \<open>
  \<open>entries_hit tbl c\<close>: the number of entries with a value different from the key whose
  key is in the content when the loop reaches them.
\<close>

fun entries_hit :: "('a list \<times> 'a list) list \<Rightarrow> 'a list \<Rightarrow> nat" where
  "entries_hit [] c = 0"
| "entries_hit ((old, new) # rest) c =
     (if old \<noteq> new \<and> contains c old then 1 else 0) + entries_hit rest (replace c old new)"

text \<open>
  \<open>self_mapped_hit tbl c\<close>: the number of entries with a value equal to the key whose key
  is in the content when the loop reaches them. Such an entry changes nothing.
\<close>

fun self_mapped_hit :: "('a list \<times> 'a list) list \<Rightarrow> 'a list \<Rightarrow> nat" where
  "self_mapped_hit [] c = 0"
| "self_mapped_hit ((old, new) # rest) c =
     (if old = new \<and> contains c old then 1 else 0) + self_mapped_hit rest (replace c old new)"

section \<open>Facts about \<open>contains\<close> and \<open>replace\<close>\<close>

lemma contains_sublist: "contains s w = sublist w s"
  by (induction s) (auto simp: sublist_Cons_right)

lemma contains_iff: "contains s w \<longleftrightarrow> (\<exists>p q. s = p @ w @ q)"
  by (simp add: contains_sublist sublist_def)

lemma contains_trans:
  assumes "contains s b" and "contains b a"
  shows "contains s a"
proof -
  from assms obtain p q p' q' where "s = p @ b @ q" "b = p' @ a @ q'"
    by (auto simp: contains_iff)
  then have "s = (p @ p') @ a @ (q' @ q)" by simp
  then show ?thesis unfolding contains_iff by blast
qed

lemma contains_appendI2: "contains b w \<Longrightarrow> contains (a @ b) w"
  by (induction a) auto

lemma contains_appendI1: "contains a w \<Longrightarrow> contains (a @ b) w"
  unfolding contains_iff by (metis append.assoc)

lemma contains_prefixI: "prefix w s \<Longrightarrow> contains s w"
  unfolding contains_sublist by (rule prefix_imp_sublist)

lemma contains_append_cases:
  "contains (a @ b) w \<Longrightarrow> contains b w \<or> (\<exists>r. suffix r a \<and> r \<noteq> [] \<and> prefix w (r @ b))"
proof (induction a)
  case Nil
  then show ?case by simp
next
  case (Cons c cs)
  from Cons.prems have "prefix w ((c # cs) @ b) \<or> contains (cs @ b) w" by simp
  then show ?case
  proof
    assume "prefix w ((c # cs) @ b)"
    then show ?thesis by (intro disjI2 exI[of _ "c # cs"]) simp
  next
    assume "contains (cs @ b) w"
    with Cons.IH show ?thesis by (auto simp: suffix_Cons)
  qed
qed

lemma prefix_append_comparable: "prefix u (a @ b) \<Longrightarrow> comparable u a"
  by (auto simp: comparable_def prefix_append)

lemma starts_in_iff: "starts_in u w \<longleftrightarrow> (\<exists>r. suffix r w \<and> r \<noteq> [] \<and> comparable u r)"
  by (induction w) (auto simp: suffix_Cons)

lemma starts_in_suffix: "suffix w' w \<Longrightarrow> starts_in u w' \<Longrightarrow> starts_in u w"
  unfolding starts_in_iff by (meson suffix_order.trans)

lemma replace_prefix_old: "old \<noteq> [] \<Longrightarrow> replace (old @ s) old new = new @ replace s old new"
  by (cases old) auto

lemma replace_Cons_no:
  "\<not> prefix old (x # t) \<Longrightarrow> replace (x # t) old new = x # replace t old new"
  by auto

lemma replace_Nil_ne: "old \<noteq> [] \<Longrightarrow> replace [] old new = []"
  by simp

lemma replace_skip:
  "\<not> starts_in old w \<Longrightarrow> replace (w @ s) old new = w @ replace s old new"
proof (induction w)
  case Nil
  then show ?case by simp
next
  case (Cons c cs)
  then have nc: "\<not> comparable old (c # cs)" and rest: "\<not> starts_in old cs" by auto
  from nc have "\<not> prefix old ((c # cs) @ s)" using prefix_append_comparable by blast
  then have "replace ((c # cs) @ s) old new = c # replace (cs @ s) old new"
    by (simp add: replace_Cons_no del: replace.simps)
  with Cons.IH rest show ?case by simp
qed

lemma replace_skip':
  "\<not> prefix old (w @ s) \<Longrightarrow> \<not> starts_in old (tl w) \<Longrightarrow>
   replace (w @ s) old new = w @ replace s old new"
proof (cases w)
  case Nil
  then show ?thesis by simp
next
  case (Cons c cs)
  assume a: "\<not> prefix old (w @ s)" "\<not> starts_in old (tl w)"
  with Cons have "replace (w @ s) old new = c # replace (cs @ s) old new"
    by (simp add: replace_Cons_no del: replace.simps)
  with a Cons show ?thesis by (simp add: replace_skip)
qed

lemma prefix_replace_back0:
  "\<not> starts_in new w \<Longrightarrow> old \<noteq> [] \<Longrightarrow> prefix w (replace s old new) \<Longrightarrow> prefix w s"
proof (induction w arbitrary: s)
  case Nil
  then show ?case by simp
next
  case (Cons y w')
  then have nc: "\<not> comparable new (y # w')" and rest: "\<not> starts_in new w'" by auto
  show ?case
  proof (cases s)
    case Nil
    with Cons.prems show ?thesis by simp
  next
    case (Cons x t)
    show ?thesis
    proof (cases "prefix old s")
      case True
      then obtain s' where "s = old @ s'" by (auto simp: prefix_def)
      with \<open>old \<noteq> []\<close> have "replace s old new = new @ replace s' old new"
        by (simp add: replace_prefix_old)
      with Cons.prems(3) have "comparable (y # w') new"
        using prefix_append_comparable by metis
      with nc show ?thesis by (auto simp: comparable_def)
    next
      case False
      with Cons have "replace s old new = x # replace t old new"
        by (simp add: replace_Cons_no del: replace.simps)
      with Cons.prems(3) have "x = y" "prefix w' (replace t old new)" by auto
      with Cons.IH[OF rest \<open>old \<noteq> []\<close>] have "prefix w' t" by blast
      with \<open>x = y\<close> Cons show ?thesis by simp
    qed
  qed
qed

lemma prefix_replace_back:
  "\<not> starts_in new (tl w) \<Longrightarrow> \<not> prefix old s \<Longrightarrow> prefix w (replace s old new) \<Longrightarrow> prefix w s"
proof (cases w)
  case Nil
  then show ?thesis by simp
next
  case (Cons y w')
  assume a: "\<not> starts_in new (tl w)" "\<not> prefix old s" "prefix w (replace s old new)"
  from a(2) have old: "old \<noteq> []" by auto
  show ?thesis
  proof (cases s)
    case Nil
    with a old Cons show ?thesis by simp
  next
    case (Cons x t)
    with a(2) have "replace s old new = x # replace t old new"
      by (simp add: replace_Cons_no del: replace.simps)
    with a(3) \<open>w = y # w'\<close> have "x = y" "prefix w' (replace t old new)" by auto
    moreover from a(1) \<open>w = y # w'\<close> have "\<not> starts_in new w'" by simp
    ultimately have "prefix w' t" using prefix_replace_back0 old by blast
    with \<open>x = y\<close> Cons \<open>w = y # w'\<close> show ?thesis by simp
  qed
qed


lemma contains_Nil [simp]: "contains s []"
  by (cases s) auto

lemma replace_absent: "\<not> contains s old \<Longrightarrow> replace s old new = s"
proof (induction s)
  case Nil
  then show ?case by auto
next
  case (Cons x t)
  then have "\<not> prefix old (x # t)" "\<not> contains t old" by auto
  with Cons.IH show ?case by (simp add: replace_Cons_no del: replace.simps)
qed

lemma replace_same: "old \<noteq> [] \<Longrightarrow> replace s old old = s"
proof (induction s rule: length_induct)
  case (1 s)
  show ?case
  proof (cases "prefix old s")
    case True
    then obtain s' where s: "s = old @ s'" by (auto simp: prefix_def)
    with 1 have "replace s' old old = s'" by simp
    with s 1(2) show ?thesis by (simp add: replace_prefix_old del: replace.simps)
  next
    case False
    show ?thesis
    proof (cases s)
      case Nil
      with 1(2) show ?thesis by simp
    next
      case (Cons x t)
      with 1 have "replace t old old = t" by simp
      with False Cons show ?thesis by (simp add: replace_Cons_no del: replace.simps)
    qed
  qed
qed

lemma spill_mem:
  "suffix r new \<Longrightarrow> r \<noteq> [] \<Longrightarrow> us \<noteq> [] \<Longrightarrow> old @ us \<in> set (spill old (r @ us) new)"
proof (induction new)
  case Nil
  then show ?case by simp
next
  case (Cons c cs)
  from Cons.prems(1) consider "r = c # cs" | "suffix r cs" by (auto simp: suffix_Cons)
  then show ?case
  proof cases
    case 1
    with Cons.prems show ?thesis by simp
  next
    case 2
    with Cons show ?thesis by simp
  qed
qed

lemma replace_no_create:
  assumes nc: "no_create A old new w" and old: "old \<noteq> []"
  shows "(\<forall>a\<in>set A. \<not> contains s a) \<Longrightarrow> \<not> contains s w \<Longrightarrow>
         \<not> contains (replace s old new) w"
proof (induction s rule: length_induct)
  case (1 s)
  from nc have nsi: "\<not> starts_in new (tl w)" and nin: "\<not> contains new w"
    and sp: "\<And>b. b \<in> set (spill old w new) \<Longrightarrow> \<exists>a\<in>set A. contains b a"
    by (auto simp: no_create_def list_all_iff list_ex_iff)
  show ?case
  proof (cases "prefix old s")
    case True
    then obtain s' where s: "s = old @ s'" by (auto simp: prefix_def)
    have rep: "replace s old new = new @ replace s' old new"
      using old s by (simp add: replace_prefix_old del: replace.simps)
    have len: "length s' < length s" using old s by simp
    have absA: "\<forall>a\<in>set A. \<not> contains s' a" and absw: "\<not> contains s' w"
      using 1(2,3) s contains_appendI2 by blast+
    have IH: "\<not> contains (replace s' old new) w"
      using 1(1) len absA absw by blast
    show ?thesis
    proof
      assume "contains (replace s old new) w"
      with rep have "contains (new @ replace s' old new) w" by simp
      from contains_append_cases[OF this] IH
      obtain r where r: "suffix r new" "r \<noteq> []" "prefix w (r @ replace s' old new)"
        by blast
      from r(3) have "prefix w r \<or>
          (\<exists>us. w = r @ us \<and> us \<noteq> [] \<and> prefix us (replace s' old new))"
        unfolding prefix_append by (cases "w = r") auto
      then consider "prefix w r"
        | us where "w = r @ us" "us \<noteq> []" "prefix us (replace s' old new)"
        by blast
      then show False
      proof cases
        case 1
        then obtain q where "r = w @ q" by (auto simp: prefix_def)
        moreover from r(1) obtain p where "new = p @ r" by (auto simp: suffix_def)
        ultimately have "contains new w" unfolding contains_iff by blast
        with nin show False by simp
      next
        case 2
        from 2(1) r(2) have "suffix us (tl w)" by (cases r) (auto simp: suffix_def)
        with nsi have "\<not> starts_in new us" using starts_in_suffix by blast
        with 2(3) old have "prefix us s'" using prefix_replace_back0 by blast
        then obtain q where "s' = us @ q" by (auto simp: prefix_def)
        with s have "s = [] @ (old @ us) @ q" by simp
        then have cs: "contains s (old @ us)" unfolding contains_iff by blast
        from spill_mem[OF r(1) r(2) 2(2)] 2(1) have "old @ us \<in> set (spill old w new)"
          by simp
        from sp[OF this] obtain a where "a \<in> set A" "contains (old @ us) a" by blast
        with cs have "a \<in> set A" "contains s a" using contains_trans by blast+
        with 1(2) show False by blast
      qed
    qed
  next
    case False
    show ?thesis
    proof (cases s)
      case Nil
      with 1(3) old show ?thesis by simp
    next
      case (Cons x t)
      with False have rep: "replace s old new = x # replace t old new"
        by (simp add: replace_Cons_no del: replace.simps)
      have "\<forall>a\<in>set A. \<not> contains t a" "\<not> contains t w"
        using 1(2,3) Cons by auto
      with 1(1) Cons have IH: "\<not> contains (replace t old new) w" by simp
      show ?thesis
      proof
        assume c: "contains (replace s old new) w"
        with rep IH have "prefix w (replace s old new)" by simp
        with nsi False have "prefix w s" using prefix_replace_back by blast
        with 1(3) show False using contains_prefixI by blast
      qed
    qed
  qed
qed

lemma replace_removes:
  assumes ns: "no_self old new" and old: "old \<noteq> []"
  shows "\<not> contains (replace s old new) old"
proof (induction s rule: length_induct)
  case (1 s)
  from ns have n1: "\<not> starts_in old new" and n2: "\<not> starts_in new (tl old)"
    by (auto simp: no_self_def)
  show ?case
  proof (cases "prefix old s")
    case True
    then obtain s' where s: "s = old @ s'" by (auto simp: prefix_def)
    have rep: "replace s old new = new @ replace s' old new"
      using old s by (simp add: replace_prefix_old del: replace.simps)
    have len: "length s' < length s" using old s by simp
    with 1 have IH: "\<not> contains (replace s' old new) old" by blast
    show ?thesis
    proof
      assume "contains (replace s old new) old"
      with rep have "contains (new @ replace s' old new) old" by simp
      from contains_append_cases[OF this] IH
      obtain r where r: "suffix r new" "r \<noteq> []" "prefix old (r @ replace s' old new)"
        by blast
      from r(3) have "comparable old r" by (rule prefix_append_comparable)
      with r(1,2) have "starts_in old new" unfolding starts_in_iff by blast
      with n1 show False by simp
    qed
  next
    case False
    show ?thesis
    proof (cases s)
      case Nil
      with old show ?thesis by simp
    next
      case (Cons x t)
      with False have rep: "replace s old new = x # replace t old new"
        by (simp add: replace_Cons_no del: replace.simps)
      from 1 Cons have IH: "\<not> contains (replace t old new) old" by simp
      show ?thesis
      proof
        assume c: "contains (replace s old new) old"
        with rep IH have "prefix old (replace s old new)" by simp
        with n2 False have "prefix old s" using prefix_replace_back by blast
        with False show False by simp
      qed
    qed
  qed
qed

lemma replace_no_destroy:
  assumes nd: "no_destroy old w"
  shows "contains s w \<Longrightarrow> contains (replace s old new) w"
proof (induction s rule: length_induct)
  case (1 s)
  from nd have n1: "\<not> starts_in old w" and n2: "\<not> starts_in w (tl old)"
    by (auto simp: no_destroy_def)
  show ?case
  proof (cases "w = []")
    case True
    then show ?thesis by simp
  next
    case wne: False
    show ?thesis
    proof (cases "prefix w s")
      case True
      then obtain q where "s = w @ q" by (auto simp: prefix_def)
      with n1 have "replace s old new = w @ replace q old new"
        by (simp add: replace_skip del: replace.simps)
      then show ?thesis by (simp add: contains_iff) (metis append_Nil)
    next
      case npw: False
      show ?thesis
      proof (cases s)
        case Nil
        with 1(2) wne show ?thesis by simp
      next
        case (Cons x t)
        with 1(2) npw have ct: "contains t w" by simp
        show ?thesis
        proof (cases "prefix old s")
          case False
          with Cons have rep: "replace s old new = x # replace t old new"
            by (simp add: replace_Cons_no del: replace.simps)
          from 1(1) Cons ct have "contains (replace t old new) w" by simp
          with rep show ?thesis by simp
        next
          case True
          then have old: "old \<noteq> []" using Cons npw wne
            by (metis n1 comparable_def prefix_bot.extremum list.exhaust starts_in.simps(2))
          from True obtain s' where s: "s = old @ s'" by (auto simp: prefix_def)
          have rep: "replace s old new = new @ replace s' old new"
            using old s by (simp add: replace_prefix_old del: replace.simps)
          have len: "length s' < length s" using old s by simp
          from 1(2) s have "contains (old @ s') w" by simp
          from contains_append_cases[OF this]
          consider "contains s' w" | r where "suffix r old" "r \<noteq> []" "prefix w (r @ s')"
            by blast
          then show ?thesis
          proof cases
            case 1
            with \<open>\<forall>ys. length ys < length s \<longrightarrow> contains ys w \<longrightarrow> contains (replace ys old new) w\<close> len
            have "contains (replace s' old new) w" by blast
            with rep show ?thesis using contains_appendI2 by metis
          next
            case 2
            from 2(3) have cmp: "comparable w r" by (rule prefix_append_comparable)
            from 2(1) old consider "r = old" | "suffix r (tl old)"
              by (cases old) (auto simp: suffix_Cons)
            then show ?thesis
            proof cases
              case 1
              with 2(3) s npw show ?thesis by simp
            next
              case 2
              with cmp \<open>r \<noteq> []\<close> have "starts_in w (tl old)" unfolding starts_in_iff by blast
              with n2 show ?thesis by simp
            qed
          qed
        qed
      qed
    qed
  qed
qed

lemma replace_contains_new:
  "old \<noteq> [] \<Longrightarrow> contains s old \<Longrightarrow> contains (replace s old new) new"
proof (induction s)
  case Nil
  then show ?case by simp
next
  case (Cons x t)
  show ?case
  proof (cases "prefix old (x # t)")
    case True
    then obtain s' where "x # t = old @ s'" by (auto simp: prefix_def)
    with Cons.prems(1) have "replace (x # t) old new = new @ replace s' old new"
      by (simp add: replace_prefix_old del: replace.simps)
    then show ?thesis by (simp add: contains_iff del: replace.simps) (metis append_Nil)
  next
    case False
    with Cons have "contains (replace t old new) new" by simp
    with False show ?thesis by (simp add: replace_Cons_no del: replace.simps)
  qed
qed


lemma contains_hd: "contains s w \<Longrightarrow> w \<noteq> [] \<Longrightarrow> hd w \<in> set s"
  by (auto simp: contains_iff neq_Nil_conv)

lemma contains_subset: "contains s w \<Longrightarrow> set w \<subseteq> set s"
  by (auto simp: contains_iff)

lemma comparable_hd: "comparable u r \<Longrightarrow> u \<noteq> [] \<Longrightarrow> r \<noteq> [] \<Longrightarrow> hd u = hd r"
  by (auto simp: comparable_def prefix_def neq_Nil_conv)

lemma starts_in_hd: "starts_in u w \<Longrightarrow> u \<noteq> [] \<Longrightarrow> hd u \<in> set w"
proof -
  assume "starts_in u w" and u: "u \<noteq> []"
  then obtain r where r: "suffix r w" "r \<noteq> []" "comparable u r"
    unfolding starts_in_iff by blast
  with u have "hd u = hd r" using comparable_hd by blast
  moreover from r have "hd r \<in> set w" by (auto simp: suffix_def neq_Nil_conv)
  ultimately show ?thesis by simp
qed

lemma spill_last: "b \<in> set (spill old w new) \<Longrightarrow> new \<noteq> [] \<and> last new \<in> set w"
proof (induction new)
  case Nil
  then show ?case by simp
next
  case (Cons c cs)
  show ?case
  proof (cases "prefix (c # cs) w \<and> c # cs \<noteq> w")
    case True
    then have "set (c # cs) \<subseteq> set w" by (auto simp: prefix_def)
    moreover have "last (c # cs) \<in> set (c # cs)" by (rule last_in_set) simp
    ultimately show ?thesis by blast
  next
    case False
    with Cons.prems have "b \<in> set (spill old w cs)" by auto
    with Cons.IH have "cs \<noteq> []" "last cs \<in> set w" by auto
    then show ?thesis by simp
  qed
qed

lemma far_apart_no_create:
  assumes new: "new \<noteq> []" and D: "list_all (\<lambda>c. c \<notin> set D) new"
    and fa: "far_apart D new w"
  shows "no_create A old new w"
proof -
  from fa have h: "hd new \<notin> set w" and l: "last new \<notin> set w"
    and "\<exists>c\<in>set w. c \<in> set D"
    by (auto simp: far_apart_def list_ex_iff)
  with D have ex: "\<not> set w \<subseteq> set new" by (auto simp: list_all_iff)
  have "\<not> starts_in new (tl w)"
  proof
    assume "starts_in new (tl w)"
    with new have "hd new \<in> set (tl w)" using starts_in_hd by blast
    with h show False by (cases w) auto
  qed
  moreover have "\<not> contains new w" using ex contains_subset by blast
  moreover have "spill old w new = []"
  proof (cases "spill old w new")
    case Nil
    then show ?thesis .
  next
    case (Cons b bs)
    then have "b \<in> set (spill old w new)" by simp
    with l show ?thesis using spill_last by blast
  qed
  ultimately show ?thesis by (simp add: no_create_def)
qed

lemma far_apart_no_destroy:
  assumes old: "old \<noteq> []" and D: "list_all (\<lambda>c. c \<notin> set D) old"
    and fa: "far_apart D old w"
  shows "no_destroy old w"
proof -
  from fa have h: "hd old \<notin> set w" and l: "last old \<notin> set w"
    and "\<exists>c\<in>set w. c \<in> set D"
    by (auto simp: far_apart_def list_ex_iff)
  with D have ex: "\<not> set w \<subseteq> set old" by (auto simp: list_all_iff)
  have "\<not> starts_in old w" using h old starts_in_hd by blast
  moreover have "\<not> starts_in w (tl old)"
  proof
    assume "starts_in w (tl old)"
    then obtain r where r: "suffix r (tl old)" "r \<noteq> []" "comparable w r"
      unfolding starts_in_iff by blast
    from r(1) have so: "suffix r old" by (cases old) (auto simp: suffix_Cons)
    from r(3) consider "prefix w r" | "prefix r w" by (auto simp: comparable_def)
    then show False
    proof cases
      case 1
      then have "set w \<subseteq> set r" by (auto simp: prefix_def)
      moreover from so have "set r \<subseteq> set old" by (auto simp: suffix_def)
      ultimately show False using ex by blast
    next
      case 2
      from so r(2) have "last r = last old" by (auto simp: suffix_def)
      moreover from r(2) have "last r \<in> set r" by simp
      moreover from 2 have "set r \<subseteq> set w" by (auto simp: prefix_def)
      ultimately show False using l by auto
    qed
  qed
  ultimately show ?thesis by (simp add: no_destroy_def)
qed

lemma far_apart_all_no_create:
  "new \<noteq> [] \<Longrightarrow> list_all (\<lambda>c. c \<notin> set D) new \<Longrightarrow> list_all (far_apart D new) ws \<Longrightarrow>
   list_all (no_create A old new) ws"
  using far_apart_no_create unfolding list_all_iff by blast

lemma not_starts_in_by_chars:
  assumes n: "n < length u" and c: "u ! n \<notin> set w" and w: "w \<noteq> []"
    and l: "last w \<notin> set (take n u)"
  shows "\<not> starts_in u w"
proof
  assume "starts_in u w"
  then obtain r where r: "suffix r w" "r \<noteq> []" "comparable u r"
    unfolding starts_in_iff by blast
  from r(3) consider "prefix u r" | "prefix r u" by (auto simp: comparable_def)
  then show False
  proof cases
    case 1
    then have "set u \<subseteq> set r" by (auto simp: prefix_def)
    moreover from r(1) have "set r \<subseteq> set w" by (auto simp: suffix_def)
    moreover from n have "u ! n \<in> set u" by simp
    ultimately show False using c by blast
  next
    case 2
    from r(1,2) have lr: "last r = last w" by (auto simp: suffix_def)
    from r(1) have rw: "set r \<subseteq> set w" by (auto simp: suffix_def)
    show False
    proof (cases "length r \<le> n")
      case True
      with 2 have "prefix r (take n u)"
        by (metis prefix_def append_eq_conv_conj take_take min.absorb1 take_is_prefix)
      then have "set r \<subseteq> set (take n u)" by (auto simp: prefix_def)
      moreover from r(2) have "last r \<in> set r" by simp
      ultimately show False using l lr by auto
    next
      case False
      then have "n < length r" by simp
      with 2 have "r ! n = u ! n" by (auto simp: prefix_def nth_append)
      moreover from \<open>n < length r\<close> have "r ! n \<in> set r" by simp
      ultimately show False using rw c by auto
    qed
  qed
qed

lemmas check_simps = no_create_def no_self_def no_destroy_def comparable_def far_apart_def

section \<open>The passes as functions of the content\<close>

lemma fst_fix_loop: "fst (fix_loop tbl (c, n)) = fold apply_pair tbl c"
  by (induction tbl arbitrary: c n) (auto simp: apply_pair_def replace_absent simp del: replace.simps)

lemma fst_fix_loop_counting: "fst (fix_loop_counting tbl (c, n)) = fold apply_pair tbl c"
  by (induction tbl arbitrary: c n) (auto simp: apply_pair_def replace_absent simp del: replace.simps)

lemma table_ok_sound:
  "table_ok A tbl \<Longrightarrow> \<forall>a\<in>set A. \<not> contains s a \<Longrightarrow>
   \<forall>a\<in>set (absent_after A tbl). \<not> contains (fold apply_pair tbl s) a"
proof (induction tbl arbitrary: A s)
  case Nil
  then show ?case by simp
next
  case (Cons p rest)
  obtain old new where p: "p = (old, new)" by (cases p)
  show ?case
  proof (cases "old = new")
    case True
    with Cons.prems p have "table_ok A rest" and "apply_pair p s = s"
      by (auto simp: apply_pair_def replace_same simp del: replace.simps)
    with Cons.IH[of A s] Cons.prems(2) p True show ?thesis by simp
  next
    case False
    with Cons.prems p have old: "old \<noteq> []" and nc: "list_all (no_create A old new) A"
      and ns: "no_self old new" and ok: "table_ok (old # A) rest" by auto
    have "\<forall>a\<in>set (old # A). \<not> contains (replace s old new) a"
    proof
      fix a assume "a \<in> set (old # A)"
      then consider "a = old" | "a \<in> set A" by auto
      then show "\<not> contains (replace s old new) a"
      proof cases
        case 1
        with ns old show ?thesis using replace_removes by blast
      next
        case 2
        with nc have "no_create A old new a" by (simp add: list_all_iff)
        with old Cons.prems(2) 2 show ?thesis using replace_no_create by blast
      qed
    qed
    from Cons.IH[OF ok this] p False show ?thesis by (simp add: apply_pair_def del: replace.simps)
  qed
qed

lemma absent_after_set:
  "set (absent_after A tbl) = set A \<union> {k. \<exists>v. (k, v) \<in> set tbl \<and> k \<noteq> v}"
  by (induction A tbl rule: absent_after.induct) auto

lemma table_ok_keys: "table_ok A tbl \<Longrightarrow> (k, v) \<in> set tbl \<Longrightarrow> k \<noteq> []"
  by (induction A tbl rule: table_ok.induct) (auto split: if_splits)

lemma fold_apply_pair_clean:
  "(\<And>k v. (k, v) \<in> set tbl \<Longrightarrow> k \<noteq> [] \<and> (k = v \<or> \<not> contains s k)) \<Longrightarrow>
   fold apply_pair tbl s = s"
proof (induction tbl)
  case Nil
  then show ?case by simp
next
  case (Cons p rest)
  obtain k v where p: "p = (k, v)" by (cases p)
  with Cons.prems[of k v] have "apply_pair p s = s"
    by (auto simp: apply_pair_def replace_same replace_absent simp del: replace.simps)
  moreover have "fold apply_pair rest s = s" using Cons by auto
  ultimately show ?case by simp
qed

lemma table_clean_after:
  assumes "table_ok [] tbl" and "\<forall>a\<in>set (absent_after [] tbl). \<not> contains y a"
  shows "fold apply_pair tbl y = y"
proof (rule fold_apply_pair_clean)
  fix k v assume kv: "(k, v) \<in> set tbl"
  with assms(1) have "k \<noteq> []" by (rule table_ok_keys)
  moreover have "k = v \<or> \<not> contains y k"
    using assms(2) kv unfolding absent_after_set by blast
  ultimately show "k \<noteq> [] \<and> (k = v \<or> \<not> contains y k)" by simp
qed

lemma guarded_absent:
  assumes "list_all (no_create A old new) A" and "old \<noteq> []"
    and "\<forall>a\<in>set A. \<not> contains c a"
  shows "\<forall>a\<in>set A. \<not> contains (guarded old new c) a"
proof
  fix a assume a: "a \<in> set A"
  with assms(1) have "no_create A old new a" by (simp add: list_all_iff)
  from replace_no_create[OF this assms(2) assms(3)] a assms(3)
  have "\<not> contains (replace c old new) a" by blast
  with a assms(3) show "\<not> contains (guarded old new c) a" by (simp add: guarded_def)
qed

lemma guarded_settled:
  "old \<noteq> [] \<Longrightarrow> \<not> contains (guarded old new c) old \<or> contains (guarded old new c) new"
proof (cases "contains c old \<and> \<not> contains c new")
  case True
  assume "old \<noteq> []"
  with True have "contains (replace c old new) new" using replace_contains_new by blast
  with True show ?thesis by (simp add: guarded_def)
next
  case False
  then show ?thesis by (auto simp: guarded_def)
qed

lemma guarded_fixed:
  "\<not> contains c old \<or> contains c new \<Longrightarrow> guarded old new c = c"
  by (auto simp: guarded_def)


lemma guarded_present:
  "no_destroy old w \<Longrightarrow> contains c w \<Longrightarrow> contains (guarded old new c) w"
  by (simp add: guarded_def replace_no_destroy del: replace.simps)

lemma quote_181_closed: "old_181 @ [0x22] = new_181"
  by (simp add: old_181_def new_181_def)

lemma quote_191_closed: "old_191 @ [0x22] = new_191"
  by (simp add: old_191_def new_191_def)

lemma fst_final_fix:
  "fst (final_fix x) = guarded old_181 new_181 (fold apply_pair final_fix_fixes x)"
proof -
  obtain T n where T: "fix_loop final_fix_fixes (x, 0) = (T, n)" by (cases "fix_loop final_fix_fixes (x, 0)")
  then have "T = fold apply_pair final_fix_fixes x" using fst_fix_loop[of final_fix_fixes x 0] by simp
  with T show ?thesis by (simp add: final_fix_def guarded_def del: replace.simps)
qed

lemma fst_quote_181: "fst (quote_181 p) = guarded old_181 new_181 (fst p)"
  by (cases p) (simp add: quote_181_def guarded_def quote_181_closed del: replace.simps)

lemma fst_quote_191: "fst (quote_191 p) = guarded old_191 new_191 (fst p)"
  by (cases p) (simp add: quote_191_def guarded_def quote_191_closed del: replace.simps)

lemma fst_template_block: "fst (template_block p) = replace (fst p) old_template new_template"
  by (cases p) (simp add: template_block_def replace_absent del: replace.simps)

lemma fst_fix_encoding_complete:
  "fst (fix_encoding_complete x) =
   replace (guarded old_191 new_191 (guarded old_181 new_181 (fold apply_pair replacements x)))
     old_template new_template"
  by (simp add: fix_encoding_complete_def fst_template_block fst_quote_191 fst_quote_181
      fst_fix_loop del: replace.simps)

lemma fst_fix_final_encoding:
  "fst (fix_final_encoding x) = fold apply_pair final_encoding_fixes x"
  by (simp add: fix_final_encoding_def fst_fix_loop_counting)

lemma old_181_ne: "old_181 \<noteq> []"
  by (simp add: old_181_def)

lemma old_191_ne: "old_191 \<noteq> []"
  by (simp add: old_191_def)

lemma old_template_ne: "old_template \<noteq> []"
  by (simp add: old_template_def)


section \<open>Clean input\<close>

lemma fix_loop_clean:
  "(\<forall>(k, v)\<in>set tbl. \<not> contains c k) \<Longrightarrow> fix_loop tbl (c, n) = (c, n)"
  by (induction tbl) auto

lemma fix_loop_counting_clean:
  "(\<forall>(k, v)\<in>set tbl. \<not> contains c k) \<Longrightarrow> fix_loop_counting tbl (c, n) = (c, n)"
  by (induction tbl) auto


section \<open>The quote patches and the template block\<close>

lemma length_replace:
  "old \<noteq> [] \<Longrightarrow>
   length (replace s old new) + count_str s old * length old =
   length s + count_str s old * length new"
proof (induction s rule: length_induct)
  case (1 s)
  show ?case
  proof (cases "prefix old s")
    case True
    then obtain s' where s: "s = old @ s'" by (auto simp: prefix_def)
    have rep: "replace s old new = new @ replace s' old new"
      using 1(2) s by (simp add: replace_prefix_old del: replace.simps)
    have cnt: "count_str s old = Suc (count_str s' old)"
      using 1(2) s by (cases old) auto
    have "length s' < length s" using 1(2) s by simp
    with 1 have "length (replace s' old new) + count_str s' old * length old =
      length s' + count_str s' old * length new" by blast
    with rep cnt s show ?thesis by simp
  next
    case False
    show ?thesis
    proof (cases s)
      case Nil
      with 1(2) show ?thesis by simp
    next
      case (Cons x t)
      with False have rep: "replace s old new = x # replace t old new"
        by (simp add: replace_Cons_no del: replace.simps)
      from False Cons have cnt: "count_str s old = count_str t old" by auto
      from 1 Cons have "length (replace t old new) + count_str t old * length old =
        length t + count_str t old * length new" by simp
      with rep cnt Cons show ?thesis by simp
    qed
  qed
qed


lemma unclosed_Nil: "tok \<noteq> [] \<Longrightarrow> \<not> unclosed tok q []"
  by simp



lemma closes_191:
  "\<not> starts_in old_191 (tl (old_191 @ [0x22])) \<and> \<not> starts_in (old_191 @ [0x22]) (tl old_191)"
  by (simp add: old_191_def comparable_def)

lemma replace_split:
  assumes nd: "no_destroy old w" and old: "old \<noteq> []"
  shows "\<exists>p'. replace (p @ w @ r) old new = p' @ w @ replace r old new"
proof (induction p rule: length_induct)
  case (1 p)
  from nd have n1: "\<not> starts_in old w" and n2: "\<not> starts_in w (tl old)"
    by (auto simp: no_destroy_def)
  show ?case
  proof (cases p)
    case Nil
    with n1 have "replace (p @ w @ r) old new = [] @ w @ replace r old new"
      by (simp add: replace_skip del: replace.simps)
    then show ?thesis by blast
  next
    case (Cons x p1)
    show ?thesis
    proof (cases "prefix old (p @ w @ r)")
      case False
      with Cons have "replace (p @ w @ r) old new = x # replace (p1 @ w @ r) old new"
        by (simp add: replace_Cons_no del: replace.simps)
      moreover from 1 Cons obtain p' where
        "replace (p1 @ w @ r) old new = p' @ w @ replace r old new" by auto
      ultimately have "replace (p @ w @ r) old new = (x # p') @ w @ replace r old new"
        by simp
      then show ?thesis by blast
    next
      case True
      then have "prefix old p \<or> (\<exists>u. old = p @ u \<and> prefix u (w @ r))"
        by (simp add: prefix_append)
      then show ?thesis
      proof
        assume "prefix old p"
        then obtain p2 where p2: "p = old @ p2" by (auto simp: prefix_def)
        with old p2 have "length p2 < length p" by simp
        with 1 obtain p' where "replace (p2 @ w @ r) old new = p' @ w @ replace r old new"
          by blast
        with p2 old have "replace (p @ w @ r) old new = (new @ p') @ w @ replace r old new"
          by (simp add: replace_prefix_old del: replace.simps)
        then show ?thesis by blast
      next
        assume "\<exists>u. old = p @ u \<and> prefix u (w @ r)"
        then obtain u where u: "old = p @ u" "prefix u (w @ r)" by blast
        show ?thesis
        proof (cases "u = []")
          case True
          with u have "prefix old p" by simp
          then obtain p2 where p2: "p = old @ p2" by (auto simp: prefix_def)
          with u True have "p2 = []" by simp
          from p2 \<open>p2 = []\<close> old have
            "replace (p @ w @ r) old new = new @ replace ([] @ w @ r) old new"
            by (simp add: replace_prefix_old del: replace.simps)
          also from n1 have "replace ([] @ w @ r) old new = w @ replace r old new"
            by (simp add: replace_skip del: replace.simps)
          finally have "replace (p @ w @ r) old new = new @ w @ replace r old new" .
          then show ?thesis by blast
        next
          case False
          from u(2) have "comparable u w" by (rule prefix_append_comparable)
          then have "comparable w u" by (auto simp: comparable_def)
          moreover from u(1) Cons have "suffix u (tl old)" by (simp add: suffix_def)
          ultimately have "starts_in w (tl old)" using False unfolding starts_in_iff by blast
          with n2 show ?thesis by simp
        qed
      qed
    qed
  qed
qed

lemma unclosed_here:
  "(prefix tok s \<and> \<not> prefix (tok @ [q]) s) \<longleftrightarrow> (\<exists>r. s = tok @ r \<and> \<not> prefix [q] r)"
proof
  assume l: "prefix tok s \<and> \<not> prefix (tok @ [q]) s"
  then obtain r where r: "s = tok @ r" using prefixE by blast
  with l have "\<not> prefix [q] r" by simp
  with r show "\<exists>r. s = tok @ r \<and> \<not> prefix [q] r" by blast
next
  assume "\<exists>r. s = tok @ r \<and> \<not> prefix [q] r"
  then obtain r where "s = tok @ r" "\<not> prefix [q] r" by blast
  then show "prefix tok s \<and> \<not> prefix (tok @ [q]) s" by simp
qed

lemma unclosed_iff:
  "tok \<noteq> [] \<Longrightarrow>
   unclosed tok q s \<longleftrightarrow> (\<exists>p r. s = p @ tok @ r \<and> \<not> prefix [q] r)"
proof (induction s)
  case Nil
  then show ?case by simp
next
  case (Cons x xs)
  then have IH: "unclosed tok q xs \<longleftrightarrow> (\<exists>p r. xs = p @ tok @ r \<and> \<not> prefix [q] r)"
    by blast
  have a: "(prefix tok (x # xs) \<and> \<not> prefix (tok @ [q]) (x # xs)) \<longleftrightarrow>
        (\<exists>r. x # xs = tok @ r \<and> \<not> prefix [q] r)"
    by (rule unclosed_here)
  have b: "(\<exists>p r. x # xs = p @ tok @ r \<and> \<not> prefix [q] r) \<longleftrightarrow>
        (\<exists>r. x # xs = tok @ r \<and> \<not> prefix [q] r) \<or> (\<exists>p r. xs = p @ tok @ r \<and> \<not> prefix [q] r)"
    (is "?L \<longleftrightarrow> ?A \<or> ?B")
  proof
    assume ?L
    then obtain p r where pr: "x # xs = p @ tok @ r" "\<not> prefix [q] r" by blast
    show "?A \<or> ?B"
    proof (cases p)
      case Nil
      with pr show ?thesis by auto
    next
      case (Cons y p')
      with pr have "xs = p' @ tok @ r" by simp
      with pr(2) show ?thesis by blast
    qed
  next
    assume "?A \<or> ?B"
    then show ?L
    proof
      assume ?A
      then obtain r where "x # xs = [] @ tok @ r" "\<not> prefix [q] r" by auto
      then show ?L by blast
    next
      assume ?B
      then obtain p r where "xs = p @ tok @ r" "\<not> prefix [q] r" by blast
      then have "x # xs = (x # p) @ tok @ r" "\<not> prefix [q] r" by simp_all
      then show ?L by blast
    qed
  qed
  have "unclosed tok q (x # xs) \<longleftrightarrow>
      (prefix tok (x # xs) \<and> \<not> prefix (tok @ [q]) (x # xs)) \<or> unclosed tok q xs"
    by (simp only: unclosed.simps)
  also have "\<dots> \<longleftrightarrow> (\<exists>r. x # xs = tok @ r \<and> \<not> prefix [q] r) \<or>
      (\<exists>p r. xs = p @ tok @ r \<and> \<not> prefix [q] r)"
    using IH a by (simp only:)
  finally show ?case using b by (simp only:)
qed

lemma replace_keeps_unclosed:
  assumes nd: "no_destroy old tok" and tok: "tok \<noteq> []" and old: "old \<noteq> []"
    and new: "new \<noteq> []" "hd new \<noteq> q"
    and u: "unclosed tok q s"
  shows "unclosed tok q (replace s old new)"
proof -
  from u unclosed_iff[OF tok, of q s] obtain p r
    where s: "s = p @ tok @ r" and r: "\<not> prefix [q] r" by blast
  from replace_split[OF nd old] obtain p' where
    rep: "replace (p @ tok @ r) old new = p' @ tok @ replace r old new" by blast
  have "\<not> prefix [q] (replace r old new)"
  proof (cases r)
    case Nil
    with old show ?thesis by simp
  next
    case (Cons c r')
    with r have c: "c \<noteq> q" by simp
    show ?thesis
    proof (cases "prefix old r")
      case True
      then obtain r2 where "r = old @ r2" by (auto simp: prefix_def)
      with old have "replace r old new = new @ replace r2 old new"
        by (simp add: replace_prefix_old del: replace.simps)
      with new show ?thesis by (cases new) simp_all
    next
      case False
      with Cons have "replace r old new = c # replace r' old new"
        by (simp add: replace_Cons_no del: replace.simps)
      with c show ?thesis by simp
    qed
  qed
  with rep s have "\<exists>p r. replace s old new = p @ tok @ r \<and> \<not> prefix [q] r" by blast
  with unclosed_iff[OF tok, of q "replace s old new"] show ?thesis by blast
qed

lemma new_181_through_191: "no_destroy old_191 new_181"
  by (simp add: new_181_def old_191_def check_simps)

lemma templates_ne: "old_template \<noteq> [] \<and> new_template \<noteq> [] \<and> tl old_template \<noteq> []"
  by (simp add: old_template_def new_template_def)

lemma old_template_ends: "hd old_template = 0x20 \<and> last old_template = 0x7D"
  by (simp only: old_template_def last.simps list.simps list.sel if_False if_True simp_thms)

lemma new_template_ends: "hd new_template = 0x20 \<and> last new_template = 0x7D"
  by (simp only: new_template_def last.simps list.simps list.sel if_False if_True simp_thms)

lemma old_template_lacks: "list_all (\<lambda>c. c \<notin> set [0x22, 0x3D, 0x6D41]) old_template"
  by (simp add: old_template_def)

lemma new_template_lacks:
  "list_all (\<lambda>c. c \<notin> set (0x5A34 # map (\<lambda>k. k ! 1) (absent_after [] replacements)))
     new_template"
  by (simp add: new_template_def replacements_def)

lemma old_template_43:
  "43 < length old_template \<and> old_template ! 43 = 0x5A34 \<and> 0x7D \<notin> set (take 43 old_template)"
  by (simp add: old_template_def)

lemma new_template_43:
  "43 < length new_template \<and> new_template ! 43 = 0x6D41 \<and> 0x7D \<notin> set (take 43 new_template)"
  by (simp add: new_template_def)

lemma template_no_self: "no_self old_template new_template"
proof -
  from new_template_lacks have a: "0x5A34 \<notin> set new_template"
    unfolding list_all_iff by auto
  from old_template_lacks have b: "0x6D41 \<notin> set old_template"
    unfolding list_all_iff by auto
  have "\<not> starts_in old_template new_template"
    using old_template_43 a templates_ne new_template_ends
    by (intro not_starts_in_by_chars[of 43]) simp_all
  moreover have "\<not> starts_in new_template old_template"
    using new_template_43 b templates_ne old_template_ends
    by (intro not_starts_in_by_chars[of 43]) simp_all
  then have "\<not> starts_in new_template (tl old_template)"
    using starts_in_suffix[of "tl old_template" old_template new_template] by auto
  ultimately show ?thesis by (simp add: no_self_def)
qed

lemma new_181_through_template: "no_destroy old_template new_181"
  using old_template_ne old_template_lacks
  by (rule far_apart_no_destroy) (simp add: far_apart_def old_template_ends new_181_def)

lemma old_181_kept_by_191: "no_destroy old_191 old_181"
  by (simp add: old_181_def old_191_def check_simps)

lemma old_181_kept_by_template: "no_destroy old_template old_181"
  using old_template_ne old_template_lacks
  by (rule far_apart_no_destroy) (simp add: far_apart_def old_template_ends old_181_def)

lemma new_191_hd: "new_191 \<noteq> [] \<and> hd new_191 \<noteq> 0x22"
  by (simp add: new_191_def)

lemma new_template_hd: "new_template \<noteq> [] \<and> hd new_template \<noteq> 0x22"
  by (simp add: new_template_def)

lemma guarded_keeps_unclosed:
  "no_destroy old tok \<Longrightarrow> tok \<noteq> [] \<Longrightarrow> old \<noteq> [] \<Longrightarrow> new \<noteq> [] \<and> hd new \<noteq> q \<Longrightarrow>
   unclosed tok q c \<Longrightarrow> unclosed tok q (guarded old new c)"
  by (simp add: guarded_def replace_keeps_unclosed del: replace.simps)


lemma quote_181_skips: "contains c new_181 \<Longrightarrow> quote_181 (c, n) = (c, n)"
  by (simp add: quote_181_def quote_181_closed del: replace.simps)



lemma complete_keeps_unclosed_181:
  assumes "unclosed old_181 0x22 c"
  shows "unclosed old_181 0x22 (fst (template_block (quote_191 (c, n))))"
proof -
  from assms have "unclosed old_181 0x22 (guarded old_191 new_191 c)"
    using guarded_keeps_unclosed[OF old_181_kept_by_191 old_181_ne old_191_ne new_191_hd]
    by blast
  then have "unclosed old_181 0x22
      (replace (guarded old_191 new_191 c) old_template new_template)"
    using replace_keeps_unclosed[OF old_181_kept_by_template old_181_ne old_template_ne]
      new_template_hd by blast
  then show ?thesis by (simp add: fst_template_block fst_quote_191 del: replace.simps)
qed


lemma replace_whole: "old \<noteq> [] \<Longrightarrow> replace old old new = new"
  using replace_prefix_old[of old "[]" new] by simp

lemma contains_self: "contains s s"
  by (rule contains_prefixI) simp







lemma both_forms_final_fix:
  "fix_loop final_fix_fixes (old_181 @ new_181, 0) = (old_181 @ new_181, 0)"
  by (rule fix_loop_clean) (simp add: final_fix_fixes_def old_181_def new_181_def)

lemma both_forms_complete:
  "fix_loop replacements (old_181 @ new_181, 0) = (old_181 @ new_181, 0)"
  by (rule fix_loop_clean) (simp add: replacements_def old_181_def new_181_def)

lemma both_forms_unclosed: "unclosed old_181 0x22 (old_181 @ new_181)"
  by (simp add: old_181_def new_181_def)

lemma old_template_lacks_keys:
  "list_all (\<lambda>c. c \<notin> set [0x3E, 0x95AB, 0x446, 0x9359, 0x6D93, 0x9352, 0x5220, 0x7586, 0x71BB,
      0x25BC, 0x884C, 0x5D88, 0x65BF, 0x5BEE, 0x7490, 0x6902, 0x7986]) old_template"
  by (simp add: old_template_def)

lemma keys_not_in_old_template:
  "\<forall>(k, v)\<in>set replacements. \<not> contains old_template k"
proof -
  have "list_all (\<lambda>p. list_ex (\<lambda>c. c \<in> set [0x3E, 0x95AB, 0x446, 0x9359, 0x6D93, 0x9352, 0x5220,
      0x7586, 0x71BB, 0x25BC, 0x884C, 0x5D88, 0x65BF, 0x5BEE, 0x7490, 0x6902, 0x7986]) (fst p))
      replacements"
    by (simp add: replacements_def)
  with old_template_lacks_keys have "\<forall>p\<in>set replacements. \<not> set (fst p) \<subseteq> set old_template"
    unfolding list_all_iff list_ex_iff by blast
  then show ?thesis using contains_subset by fastforce
qed

lemma old_template_has_no_title:
  "\<not> contains old_template old_181 \<and> \<not> contains old_template old_191"
proof -
  from old_template_lacks have "0x3D \<notin> set old_template" unfolding list_all_iff by auto
  moreover have "0x3D \<in> set old_181" "0x3D \<in> set old_191"
    by (simp_all add: old_181_def old_191_def)
  ultimately show ?thesis using contains_subset by blast
qed

lemma before_block_old_template:
  "quote_191 (quote_181 (fix_loop replacements (old_template, 0))) = (old_template, 0)"
  using fix_loop_clean[OF keys_not_in_old_template, of 0] old_template_has_no_title
  by (simp add: quote_181_def quote_191_def)

lemma before_block_empty: "quote_191 (quote_181 (fix_loop replacements ([], 0))) = ([], 0)"
proof -
  have "\<forall>(k, v)\<in>set replacements. \<not> contains [] k" by (simp add: replacements_def)
  from fix_loop_clean[OF this, of 0] show ?thesis
    by (simp add: quote_181_def quote_191_def old_181_def old_191_def)
qed

lemma self_mapped_only_191:
  "list_all (\<lambda>p. fst p = snd p \<or> \<not> contains new_191 (fst p)) replacements"
  by (simp add: replacements_def new_191_def)

lemma guards_false_191:
  "\<not> (contains new_191 old_181 \<and> \<not> contains new_191 (old_181 @ [0x22])) \<and>
   \<not> (contains new_191 old_191 \<and> \<not> contains new_191 (old_191 @ [0x22])) \<and>
   \<not> contains new_191 old_template"
  by (simp add: new_191_def old_181_def old_191_def old_template_def)

lemma fix_loop_new_191: "fix_loop replacements (new_191, 0) = (new_191, 1)"
  by (simp add: replacements_def new_191_def)

lemma utf8_encode_a: "utf8_encode [0x61] = [0x61]"
  by (simp add: utf8_encode_def utf8_encode_char_def)

lemma passes_on_a:
  "final_fix [0x61] = ([0x61], 0) \<and> fix_encoding_complete [0x61] = ([0x61], 0) \<and>
   fix_final_encoding [0x61] = ([0x61], 0)"
  by (simp add: final_fix_def fix_encoding_complete_def fix_final_encoding_def
      final_fix_fixes_def replacements_def final_encoding_fixes_def quote_181_def quote_191_def
      template_block_def old_181_def new_181_def old_191_def old_template_def)

section \<open>Keys stay absent: idempotence\<close>

lemma final_fix_fixes_ok: "table_ok [] final_fix_fixes"
  by (simp add: final_fix_fixes_def check_simps)

lemma final_encoding_fixes_ok: "table_ok [] final_encoding_fixes"
  by (simp add: final_encoding_fixes_def check_simps)

lemma replacements_ok: "table_ok [] replacements"
  by (simp add: replacements_def check_simps)

lemma final_fix_keys_181:
  "list_all (no_create (absent_after [] final_fix_fixes) old_181 new_181)
     (absent_after [] final_fix_fixes)"
  by (simp add: final_fix_fixes_def old_181_def new_181_def check_simps)

lemma complete_keys_181:
  "list_all (no_create (absent_after [] replacements) old_181 new_181)
     (absent_after [] replacements)"
  by (simp add: replacements_def old_181_def new_181_def check_simps)

lemma complete_keys_191:
  "list_all (no_create (absent_after [] replacements) old_191 new_191)
     (absent_after [] replacements)"
  by (simp add: replacements_def old_191_def new_191_def check_simps)

lemma complete_keys_template:
  "list_all (no_create (absent_after [] replacements) old_template new_template)
     (absent_after [] replacements)"
proof -
  have "list_all (far_apart (0x5A34 # map (\<lambda>k. k ! 1) (absent_after [] replacements))
          new_template) (absent_after [] replacements)"
    by (simp add: far_apart_def new_template_ends replacements_def)
  with templates_ne new_template_lacks show ?thesis
    using far_apart_all_no_create by blast
qed

lemma new_template_lacks_quote: "list_all (\<lambda>c. c \<notin> set [0x22, 0x3D]) new_template"
  by (simp add: new_template_def)

lemma old_181_through_191: "list_all (no_create [old_181] old_191 new_191) [old_181]"
  by (simp add: old_181_def old_191_def new_191_def check_simps)

lemma old_181_through_template: "no_create [old_181] old_template new_template old_181"
  using templates_ne new_template_lacks_quote
  by (intro far_apart_no_create[of _ "[0x22, 0x3D]"])
     (simp_all add: far_apart_def new_template_ends old_181_def)

lemma old_191_through_template: "no_create [old_191] old_template new_template old_191"
  using templates_ne new_template_lacks_quote
  by (intro far_apart_no_create[of _ "[0x22, 0x3D]"])
     (simp_all add: far_apart_def new_template_ends old_191_def)

lemma new_191_through_template: "no_destroy old_template new_191"
  using old_template_ne old_template_lacks
  by (rule far_apart_no_destroy) (simp add: far_apart_def old_template_ends new_191_def)

lemma final_fix_idem: "fst (final_fix (fst (final_fix x))) = fst (final_fix x)"
proof -
  define T where "T = fold apply_pair final_fix_fixes x"
  define y where "y = guarded old_181 new_181 T"
  have "\<forall>a\<in>set (absent_after [] final_fix_fixes). \<not> contains T a"
    unfolding T_def using table_ok_sound[OF final_fix_fixes_ok] by simp
  then have "\<forall>a\<in>set (absent_after [] final_fix_fixes). \<not> contains y a"
    unfolding y_def using guarded_absent[OF final_fix_keys_181 old_181_ne] by blast
  then have "fold apply_pair final_fix_fixes y = y"
    using table_clean_after[OF final_fix_fixes_ok] by blast
  moreover have "guarded old_181 new_181 y = y"
    unfolding y_def using guarded_settled[OF old_181_ne] guarded_fixed by blast
  ultimately show ?thesis by (simp add: fst_final_fix T_def y_def)
qed

lemma fix_final_encoding_idem:
  "fst (fix_final_encoding (fst (fix_final_encoding x))) = fst (fix_final_encoding x)"
proof -
  have "\<forall>a\<in>set (absent_after [] final_encoding_fixes).
          \<not> contains (fold apply_pair final_encoding_fixes x) a"
    using table_ok_sound[OF final_encoding_fixes_ok] by simp
  then show ?thesis
    unfolding fst_fix_final_encoding using table_clean_after[OF final_encoding_fixes_ok] by blast
qed

lemma fix_encoding_complete_idem:
  "fst (fix_encoding_complete (fst (fix_encoding_complete x))) = fst (fix_encoding_complete x)"
proof -
  define K where "K = absent_after [] replacements"
  define T where "T = fold apply_pair replacements x"
  define c1 where "c1 = guarded old_181 new_181 T"
  define c2 where "c2 = guarded old_191 new_191 c1"
  define y where "y = replace c2 old_template new_template"
  have y: "fst (fix_encoding_complete x) = y"
    by (simp add: fst_fix_encoding_complete y_def c2_def c1_def T_def del: replace.simps)
  have kT: "\<forall>a\<in>set K. \<not> contains T a"
    unfolding T_def K_def using table_ok_sound[OF replacements_ok] by simp
  then have k1: "\<forall>a\<in>set K. \<not> contains c1 a"
    unfolding c1_def K_def using guarded_absent[OF complete_keys_181 old_181_ne] by blast
  then have k2: "\<forall>a\<in>set K. \<not> contains c2 a"
    unfolding c2_def K_def using guarded_absent[OF complete_keys_191 old_191_ne] by blast
  have ky: "\<forall>a\<in>set K. \<not> contains y a"
  proof
    fix a assume a: "a \<in> set K"
    with complete_keys_template have "no_create K old_template new_template a"
      unfolding K_def list_all_iff by blast
    from replace_no_create[OF this old_template_ne k2] a k2
    show "\<not> contains y a" unfolding y_def by blast
  qed
  then have tab: "fold apply_pair replacements y = y"
    unfolding K_def using table_clean_after[OF replacements_ok] by blast
  have "\<not> contains c1 old_181 \<or> contains c1 new_181"
    unfolding c1_def by (rule guarded_settled[OF old_181_ne])
  then have "\<not> contains c2 old_181 \<or> contains c2 new_181"
  proof
    assume "\<not> contains c1 old_181"
    then have "\<forall>a\<in>set [old_181]. \<not> contains c1 a" by simp
    from guarded_absent[OF old_181_through_191 old_191_ne this]
    show ?thesis unfolding c2_def by simp
  next
    assume "contains c1 new_181"
    then show ?thesis unfolding c2_def using guarded_present[OF new_181_through_191] by blast
  qed
  then have "\<not> contains y old_181 \<or> contains y new_181"
  proof
    assume n: "\<not> contains c2 old_181"
    then have "\<forall>a\<in>set [old_181]. \<not> contains c2 a" by simp
    from replace_no_create[OF old_181_through_template old_template_ne this n]
    show ?thesis unfolding y_def by simp
  next
    assume "contains c2 new_181"
    then show ?thesis unfolding y_def using replace_no_destroy[OF new_181_through_template] by blast
  qed
  then have q181: "guarded old_181 new_181 y = y" by (rule guarded_fixed)
  have "\<not> contains c2 old_191 \<or> contains c2 new_191"
    unfolding c2_def by (rule guarded_settled[OF old_191_ne])
  then have "\<not> contains y old_191 \<or> contains y new_191"
  proof
    assume n: "\<not> contains c2 old_191"
    then have "\<forall>a\<in>set [old_191]. \<not> contains c2 a" by simp
    from replace_no_create[OF old_191_through_template old_template_ne this n]
    show ?thesis unfolding y_def by simp
  next
    assume "contains c2 new_191"
    then show ?thesis unfolding y_def using replace_no_destroy[OF new_191_through_template] by blast
  qed
  then have q191: "guarded old_191 new_191 y = y" by (rule guarded_fixed)
  have "\<not> contains y old_template"
    unfolding y_def using template_no_self old_template_ne by (rule replace_removes)
  then have tmpl: "replace y old_template new_template = y" by (rule replace_absent)
  have "fst (fix_encoding_complete y) = y"
    unfolding fst_fix_encoding_complete tab q181 q191 tmpl ..
  with y show ?thesis by simp
qed


section \<open>Replacements that commute\<close>

lemma replace_commute:
  assumes ok: "commute_ok (k1, v1) (k2, v2)"
  shows "replace (replace s k1 v1) k2 v2 = replace (replace s k2 v2) k1 v1"
proof (induction s rule: length_induct)
  case (1 s)
  from ok have k1: "k1 \<noteq> []" and k2: "k2 \<noteq> []"
    and a: "\<not> starts_in k2 v1" "\<not> starts_in k2 k1"
    and b: "\<not> starts_in k1 v2" "\<not> starts_in k1 k2"
    and c: "\<not> starts_in v1 (tl k2)" "\<not> starts_in v2 (tl k1)"
    by (auto simp: commute_ok_def)
  show ?case
  proof (cases "prefix k1 s")
    case True
    then obtain s' where s: "s = k1 @ s'" by (auto simp: prefix_def)
    with k1 have "length s' < length s" by simp
    with 1 have IH: "replace (replace s' k1 v1) k2 v2 = replace (replace s' k2 v2) k1 v1"
      by blast
    have "replace (replace s k1 v1) k2 v2 = replace (v1 @ replace s' k1 v1) k2 v2"
      using s k1 by (simp add: replace_prefix_old del: replace.simps)
    also have "\<dots> = v1 @ replace (replace s' k1 v1) k2 v2"
      using a(1) by (rule replace_skip)
    finally have l: "replace (replace s k1 v1) k2 v2 = v1 @ replace (replace s' k1 v1) k2 v2" .
    have "replace s k2 v2 = k1 @ replace s' k2 v2"
      unfolding s using a(2) by (rule replace_skip)
    then have "replace (replace s k2 v2) k1 v1 = v1 @ replace (replace s' k2 v2) k1 v1"
      using k1 by (simp add: replace_prefix_old del: replace.simps)
    with l IH show ?thesis by simp
  next
    case n1: False
    show ?thesis
    proof (cases "prefix k2 s")
      case True
      then obtain s' where s: "s = k2 @ s'" by (auto simp: prefix_def)
      with k2 have "length s' < length s" by simp
      with 1 have IH: "replace (replace s' k1 v1) k2 v2 = replace (replace s' k2 v2) k1 v1"
        by blast
      have "replace (replace s k2 v2) k1 v1 = replace (v2 @ replace s' k2 v2) k1 v1"
        using s k2 by (simp add: replace_prefix_old del: replace.simps)
      also have "\<dots> = v2 @ replace (replace s' k2 v2) k1 v1"
        using b(1) by (rule replace_skip)
      finally have l: "replace (replace s k2 v2) k1 v1 = v2 @ replace (replace s' k2 v2) k1 v1" .
      have "replace s k1 v1 = k2 @ replace s' k1 v1"
        unfolding s using b(2) by (rule replace_skip)
      then have "replace (replace s k1 v1) k2 v2 = v2 @ replace (replace s' k1 v1) k2 v2"
        using k2 by (simp add: replace_prefix_old del: replace.simps)
      with l IH show ?thesis by simp
    next
      case n2: False
      show ?thesis
      proof (cases s)
        case Nil
        with k1 k2 show ?thesis by simp
      next
        case (Cons x t)
        with 1 have IH: "replace (replace t k1 v1) k2 v2 = replace (replace t k2 v2) k1 v1"
          by simp
        have r1: "replace s k1 v1 = x # replace t k1 v1"
          using n1 Cons by (simp add: replace_Cons_no del: replace.simps)
        have r2: "replace s k2 v2 = x # replace t k2 v2"
          using n2 Cons by (simp add: replace_Cons_no del: replace.simps)
        have "\<not> prefix k2 (replace s k1 v1)"
          using prefix_replace_back[OF c(1) n1] n2 by blast
        with r1 have l: "replace (replace s k1 v1) k2 v2 = x # replace (replace t k1 v1) k2 v2"
          by (simp add: replace_Cons_no del: replace.simps)
        have "\<not> prefix k1 (replace s k2 v2)"
          using prefix_replace_back[OF c(2) n2] n1 by blast
        with r2 have "replace (replace s k2 v2) k1 v1 = x # replace (replace t k2 v2) k1 v1"
          by (simp add: replace_Cons_no del: replace.simps)
        with l IH show ?thesis by simp
      qed
    qed
  qed
qed

lemma apply_pair_commute:
  "commute_ok p q \<Longrightarrow> apply_pair p \<circ> apply_pair q = apply_pair q \<circ> apply_pair p"
  using replace_commute[of "fst q" "snd q" "fst p" "snd p"]
  by (auto simp: apply_pair_def fun_eq_iff commute_ok_def simp del: replace.simps)

lemma fold_permutation:
  assumes "pairwise_commute tbl" and "mset perm = mset tbl"
  shows "fold apply_pair perm s = fold apply_pair tbl s"
proof -
  have "\<And>p q. p \<in> set tbl \<Longrightarrow> q \<in> set tbl \<Longrightarrow>
          apply_pair p \<circ> apply_pair q = apply_pair q \<circ> apply_pair p"
  proof -
    fix p q assume "p \<in> set tbl" "q \<in> set tbl"
    with assms(1) have "p = q \<or> commute_ok p q"
      by (auto simp: pairwise_commute_def list_all_iff)
    then show "apply_pair p \<circ> apply_pair q = apply_pair q \<circ> apply_pair p"
      using apply_pair_commute by blast
  qed
  from fold_multiset_equiv[OF this assms(2)[symmetric]] show ?thesis by simp
qed

lemma final_fix_fixes_commute: "pairwise_commute final_fix_fixes"
  by (simp add: final_fix_fixes_def pairwise_commute_def commute_ok_def comparable_def)

lemma final_encoding_fixes_commute: "pairwise_commute final_encoding_fixes"
  by (simp add: final_encoding_fixes_def pairwise_commute_def commute_ok_def comparable_def)

lemma moved_to_end: "i < length xs \<Longrightarrow> mset (take i xs @ drop (Suc i) xs @ [xs ! i]) = mset xs"
proof -
  assume "i < length xs"
  then have "xs = take i xs @ xs ! i # drop (Suc i) xs" by (rule id_take_nth_drop)
  then have "mset xs = mset (take i xs @ xs ! i # drop (Suc i) xs)" by simp
  then show ?thesis by simp
qed

lemma seventh_moved:
  "mset (take 6 replacements @ drop 7 replacements @ [replacements ! 6]) = mset replacements"
proof -
  have "6 < length replacements" by (simp add: replacements_def)
  from moved_to_end[OF this] show ?thesis by (simp only: eval_nat_numeral)
qed


section \<open>Counting occurrences across a replacement\<close>

lemma count_str_prefix: "w \<noteq> [] \<Longrightarrow> count_str (w @ s) w = Suc (count_str s w)"
  by (cases w) auto

lemma count_str_Cons_no: "\<not> prefix w (x # t) \<Longrightarrow> count_str (x # t) w = count_str t w"
  by auto

lemma count_str_Nil_ne: "w \<noteq> [] \<Longrightarrow> count_str [] w = 0"
  by simp

lemma count_skip: "\<not> starts_in old u \<Longrightarrow> count_str (u @ s) old = count_str s old"
proof (induction u)
  case Nil
  then show ?case by simp
next
  case (Cons c cs)
  then have nc: "\<not> comparable old (c # cs)" and rest: "\<not> starts_in old cs" by auto
  from nc have "\<not> prefix old ((c # cs) @ s)" using prefix_append_comparable by blast
  then have "count_str ((c # cs) @ s) old = count_str (cs @ s) old"
    by (simp add: count_str_Cons_no del: count_str.simps)
  with Cons.IH rest show ?case by simp
qed

lemma count_skip':
  "\<not> prefix old (w @ s) \<Longrightarrow> \<not> starts_in old (tl w) \<Longrightarrow>
   count_str (w @ s) old = count_str s old"
proof (cases w)
  case Nil
  then show ?thesis by simp
next
  case (Cons c cs)
  assume a: "\<not> prefix old (w @ s)" "\<not> starts_in old (tl w)"
  with Cons have "count_str (w @ s) old = count_str (cs @ s) old"
    by (simp add: count_str_Cons_no del: count_str.simps)
  with a Cons show ?thesis by (simp add: count_skip del: count_str.simps)
qed

lemma no_spill:
  assumes "spill old w a = []" and "suffix r a" and "r \<noteq> []" and "prefix r w"
  shows "r = w"
proof (rule ccontr)
  assume "r \<noteq> w"
  with assms(4) obtain us where us: "w = r @ us" "us \<noteq> []" by (auto simp: prefix_def)
  from spill_mem[OF assms(2,3) us(2), of old] us(1) assms(1) show False by simp
qed

lemma spill_suffix: "spill old w a = [] \<Longrightarrow> suffix a' a \<Longrightarrow> spill old w a' = []"
proof (induction a)
  case Nil
  then show ?case by simp
next
  case (Cons c cs)
  from Cons.prems(2) consider "a' = c # cs" | "suffix a' cs" by (auto simp: suffix_Cons)
  then show ?case
  proof cases
    case 1
    with Cons.prems(1) show ?thesis by simp
  next
    case 2
    moreover from Cons.prems(1) have "spill old w cs = []" by (simp split: if_splits)
    ultimately show ?thesis using Cons.IH by blast
  qed
qed

lemma count_append:
  assumes w: "w \<noteq> []"
  shows "spill [] w a = [] \<Longrightarrow> count_str (a @ b) w = count_str a w + count_str b w"
proof (induction a rule: length_induct)
  case (1 a)
  show ?case
  proof (cases a)
    case Nil
    with w show ?thesis by simp
  next
    case (Cons c cs)
    show ?thesis
    proof (cases "prefix w (a @ b)")
      case True
      then have "prefix w a \<or> (\<exists>us. w = a @ us \<and> prefix us b)" by (simp add: prefix_append)
      then have "prefix w a"
      proof
        assume "prefix w a"
        then show ?thesis .
      next
        assume "\<exists>us. w = a @ us \<and> prefix us b"
        then have "prefix a w" by auto
        with no_spill[OF 1(2), of a] Cons have "a = w" by simp
        then show ?thesis by simp
      qed
      then obtain a' where a': "a = w @ a'" by (auto simp: prefix_def)
      with w have len: "length a' < length a" by simp
      from a' have "suffix a' a" by (auto simp: suffix_def)
      with 1(2) have "spill [] w a' = []" by (rule spill_suffix)
      with 1(1) len have "count_str (a' @ b) w = count_str a' w + count_str b w" by blast
      with a' w show ?thesis by (simp add: count_str_prefix del: count_str.simps)
    next
      case False
      then have "\<not> prefix w a" by (auto simp: prefix_def)
      with Cons have ca: "count_str a w = count_str cs w"
        by (simp add: count_str_Cons_no del: count_str.simps)
      from False Cons have cab: "count_str (a @ b) w = count_str (cs @ b) w"
        by (simp add: count_str_Cons_no del: count_str.simps)
      from Cons have "suffix cs a" by (auto simp: suffix_def)
      with 1(2) have "spill [] w cs = []" by (rule spill_suffix)
      with 1(1) Cons have "count_str (cs @ b) w = count_str cs w + count_str b w" by simp
      with ca cab show ?thesis by simp
    qed
  qed
qed

lemma count_replace:
  assumes cn: "count_neutral old new w"
  shows "count_str (replace s old new) w + count_str s old * count_str old w =
         count_str s w + count_str s old * count_str new w"
proof (induction s rule: length_induct)
  case (1 s)
  from cn have w: "w \<noteq> []" and old: "old \<noteq> []"
    and so: "\<not> starts_in old (tl w)" and sn: "\<not> starts_in new (tl w)"
    and po: "spill [] w old = []" and pn: "spill [] w new = []"
    by (auto simp: count_neutral_def)
  show ?case
  proof (cases "prefix old s")
    case True
    then obtain s' where s: "s = old @ s'" by (auto simp: prefix_def)
    with old have "length s' < length s" by simp
    with 1 have IH: "count_str (replace s' old new) w + count_str s' old * count_str old w =
         count_str s' w + count_str s' old * count_str new w" by blast
    have "replace s old new = new @ replace s' old new"
      using s old by (simp add: replace_prefix_old del: replace.simps)
    then have a: "count_str (replace s old new) w =
        count_str new w + count_str (replace s' old new) w"
      using count_append[OF w pn] by simp
    have b: "count_str s w = count_str old w + count_str s' w"
      unfolding s using count_append[OF w po] by simp
    have c: "count_str s old = Suc (count_str s' old)"
      unfolding s using old by (rule count_str_prefix)
    from a b c IH show ?thesis by simp
  next
    case nold: False
    show ?thesis
    proof (cases "prefix w s")
      case True
      then obtain s' where s: "s = w @ s'" by (auto simp: prefix_def)
      with w have "length s' < length s" by simp
      with 1 have IH: "count_str (replace s' old new) w + count_str s' old * count_str old w =
         count_str s' w + count_str s' old * count_str new w" by blast
      from nold s have np: "\<not> prefix old (w @ s')" by simp
      have "replace s old new = w @ replace s' old new"
        unfolding s using np so by (rule replace_skip')
      then have a: "count_str (replace s old new) w = Suc (count_str (replace s' old new) w)"
        using w by (simp add: count_str_prefix del: count_str.simps replace.simps)
      have b: "count_str s w = Suc (count_str s' w)"
        unfolding s using w by (rule count_str_prefix)
      have c: "count_str s old = count_str s' old"
        unfolding s using np so by (rule count_skip')
      from a b c IH show ?thesis by simp
    next
      case nw: False
      show ?thesis
      proof (cases s)
        case Nil
        with w old show ?thesis by simp
      next
        case (Cons x t)
        with 1 have IH: "count_str (replace t old new) w + count_str t old * count_str old w =
           count_str t w + count_str t old * count_str new w" by simp
        have r: "replace s old new = x # replace t old new"
          using nold Cons by (simp add: replace_Cons_no del: replace.simps)
        have "\<not> prefix w (replace s old new)"
          using prefix_replace_back[OF sn nold] nw by blast
        with r have a: "count_str (replace s old new) w = count_str (replace t old new) w"
          by (simp add: count_str_Cons_no del: count_str.simps replace.simps)
        have b: "count_str s w = count_str t w"
          using nw Cons by (simp add: count_str_Cons_no del: count_str.simps)
        have c: "count_str s old = count_str t old"
          using nold Cons by (simp add: count_str_Cons_no del: count_str.simps)
        from a b c IH show ?thesis by simp
      qed
    qed
  qed
qed

lemma count_zero: "\<not> contains s w \<Longrightarrow> count_str s w = 0"
  by (induction s) auto

lemma count_pos: "w \<noteq> [] \<Longrightarrow> contains s w \<Longrightarrow> 0 < count_str s w"
proof (induction s rule: length_induct)
  case (1 s)
  show ?case
  proof (cases "prefix w s")
    case True
    then obtain s' where "s = w @ s'" by (auto simp: prefix_def)
    with 1(2) show ?thesis by (simp add: count_str_prefix del: count_str.simps)
  next
    case False
    show ?thesis
    proof (cases s)
      case Nil
      with 1 show ?thesis by simp
    next
      case (Cons x t)
      with False 1(3) have "contains t w" by simp
      with 1 Cons have "0 < count_str t w" by simp
      with False Cons show ?thesis by (simp add: count_str_Cons_no del: count_str.simps)
    qed
  qed
qed

lemma contains_count: "w \<noteq> [] \<Longrightarrow> contains s w \<longleftrightarrow> 0 < count_str s w"
  using count_zero count_pos by (metis less_numeral_extra(3))

lemma count_fixed_fold:
  "count_fixed tbl w \<Longrightarrow> count_str (fold apply_pair tbl s) w = count_str s w"
proof (induction tbl arbitrary: s)
  case Nil
  then show ?case by simp
next
  case (Cons p rest)
  then have cn: "count_neutral (fst p) (snd p) w"
    and eq: "count_str (fst p) w = count_str (snd p) w"
    and rest: "count_fixed rest w"
    by (auto simp: count_fixed_def)
  from count_replace[OF cn, of s] eq
  have "count_str (apply_pair p s) w = count_str s w" by (simp add: apply_pair_def)
  with Cons.IH[OF rest, of "apply_pair p s"] show ?case by simp
qed



lemma snd_fix_loop:
  "snd (fix_loop tbl (c, n)) = n + entries_hit tbl c + self_mapped_hit tbl c"
proof (induction tbl arbitrary: c n)
  case Nil
  then show ?case by simp
next
  case (Cons p rest)
  obtain old new where p: "p = (old, new)" by (cases p)
  show ?case
  proof (cases "contains c old")
    case True
    from Cons[of "replace c old new" "n + 1"] True p show ?thesis
      by (auto simp del: replace.simps)
  next
    case False
    then have "replace c old new = c" by (rule replace_absent)
    with Cons[of c n] False p show ?thesis by (auto simp del: replace.simps)
  qed
qed

lemma self_mapped_hit_proper:
  "list_all (\<lambda>p. fst p \<noteq> snd p) tbl \<Longrightarrow> self_mapped_hit tbl c = 0"
proof (induction tbl arbitrary: c)
  case Nil
  then show ?case by simp
next
  case (Cons p rest)
  obtain old new where p: "p = (old, new)" by (cases p)
  with Cons.prems have "old \<noteq> new" and "list_all (\<lambda>p. fst p \<noteq> snd p) rest" by auto
  with Cons.IH[of "replace c old new"] p show ?case by (simp del: replace.simps)
qed

lemma snd_fix_loop_proper:
  assumes "list_all (\<lambda>p. fst p \<noteq> snd p) tbl"
  shows "snd (fix_loop tbl (c, n)) = n + entries_hit tbl c"
  using snd_fix_loop[of tbl c n] self_mapped_hit_proper[OF assms, of c] by simp

lemma entries_hit_le: "entries_hit tbl c \<le> length tbl"
proof (induction tbl arbitrary: c)
  case Nil
  then show ?case by simp
next
  case (Cons p rest)
  obtain old new where p: "p = (old, new)" by (cases p)
  from Cons[of "replace c old new"] p show ?case by (simp del: replace.simps)
qed

lemma entry_key_seen:
  assumes "entry_ok pre k v post"
  shows "contains (fold apply_pair pre x) k \<longleftrightarrow> contains x k"
    and "count_str (fold apply_pair pre x) k = count_str x k"
proof -
  from assms have pk: "count_fixed pre k" and k: "k \<noteq> []"
    by (auto simp: entry_ok_def count_neutral_def)
  from pk show c: "count_str (fold apply_pair pre x) k = count_str x k"
    by (rule count_fixed_fold)
  with k show "contains (fold apply_pair pre x) k \<longleftrightarrow> contains x k"
    by (simp add: contains_count)
qed

lemma entry_proper: "entry_ok pre k v post \<Longrightarrow> k \<noteq> v"
  by (auto simp: entry_ok_def)

lemma entries_hit_input:
  "entries_ok pre post \<Longrightarrow>
   entries_hit post (fold apply_pair pre x) = length (filter (\<lambda>p. contains x (fst p)) post)"
proof (induction post arbitrary: pre)
  case Nil
  then show ?case by simp
next
  case (Cons p post)
  obtain k v where p: "p = (k, v)" by (cases p)
  with Cons.prems have e: "entry_ok pre k v post" and r: "entries_ok (pre @ [(k, v)]) post"
    by auto
  have "fold apply_pair (pre @ [(k, v)]) x = replace (fold apply_pair pre x) k v"
    by (simp add: apply_pair_def del: replace.simps)
  with Cons.IH[OF r] have "entries_hit post (replace (fold apply_pair pre x) k v) =
      length (filter (\<lambda>p. contains x (fst p)) post)" by simp
  with entry_key_seen(1)[OF e, of x] entry_proper[OF e] p show ?case
    by (simp del: replace.simps)
qed

lemma entries_proper: "entries_ok pre post \<Longrightarrow> list_all (\<lambda>p. fst p \<noteq> snd p) post"
proof (induction post arbitrary: pre)
  case Nil
  then show ?case by simp
next
  case (Cons p post)
  obtain k v where p: "p = (k, v)" by (cases p)
  with Cons.prems have e: "entry_ok pre k v post" and r: "entries_ok (pre @ [(k, v)]) post"
    by auto
  from Cons.IH[OF r] entry_proper[OF e] p show ?case by simp
qed

lemma snd_fix_loop_counting:
  "entries_ok pre post \<Longrightarrow>
   snd (fix_loop_counting post (fold apply_pair pre x, n)) =
   n + sum_list (map (\<lambda>p. count_str x (fst p)) post)"
proof (induction post arbitrary: pre n)
  case Nil
  then show ?case by simp
next
  case (Cons p post)
  obtain k v where p: "p = (k, v)" by (cases p)
  with Cons.prems have e: "entry_ok pre k v post" and r: "entries_ok (pre @ [(k, v)]) post"
    by auto
  define c where "c = fold apply_pair pre x"
  have f: "fold apply_pair (pre @ [(k, v)]) x = replace c k v"
    by (simp add: apply_pair_def c_def del: replace.simps)
  have cnt: "count_str c k = count_str x k"
    unfolding c_def by (rule entry_key_seen(2)[OF e])
  show ?case
  proof (cases "contains c k")
    case True
    from Cons.IH[OF r, of "n + count_str c k"] f
    have "snd (fix_loop_counting post (replace c k v, n + count_str c k)) =
        n + count_str c k + sum_list (map (\<lambda>p. count_str x (fst p)) post)" by simp
    with True cnt p show ?thesis by (simp add: c_def[symmetric] del: replace.simps)
  next
    case False
    then have z: "count_str c k = 0" and same: "replace c k v = c"
      by (simp_all add: count_zero replace_absent del: replace.simps)
    from Cons.IH[OF r, of n] f same
    have "snd (fix_loop_counting post (c, n)) =
        n + sum_list (map (\<lambda>p. count_str x (fst p)) post)" by simp
    with False cnt z p show ?thesis by (simp add: c_def[symmetric] del: replace.simps)
  qed
qed

lemma final_fix_fixes_entries: "entries_ok [] final_fix_fixes"
  by (simp add: final_fix_fixes_def entry_ok_def count_fixed_def count_neutral_def comparable_def)

lemma final_encoding_fixes_entries: "entries_ok [] final_encoding_fixes"
  by (simp add: final_encoding_fixes_def entry_ok_def count_fixed_def count_neutral_def
      comparable_def)


section \<open>Keys and counters of the three passes\<close>





lemma final_fix_fixes_proper: "list_all (\<lambda>p. fst p \<noteq> snd p) final_fix_fixes"
  by (simp add: final_fix_fixes_def)



lemma snd_final_fix:
  "snd (final_fix x) =
   length (filter (\<lambda>p. contains x (fst p)) final_fix_fixes) +
   (if contains (fst (fix_loop final_fix_fixes (x, 0))) old_181 \<and>
       \<not> contains (fst (fix_loop final_fix_fixes (x, 0))) new_181 then 1 else 0)"
proof -
  obtain T n where T: "fix_loop final_fix_fixes (x, 0) = (T, n)"
    by (cases "fix_loop final_fix_fixes (x, 0)")
  with snd_fix_loop_proper[OF final_fix_fixes_proper, of x 0]
  have "n = entries_hit final_fix_fixes x" by simp
  with entries_hit_input[OF final_fix_fixes_entries, of x]
  have "n = length (filter (\<lambda>p. contains x (fst p)) final_fix_fixes)" by simp
  with T show ?thesis by (simp add: final_fix_def del: replace.simps)
qed

lemma snd_fix_final_encoding:
  "snd (fix_final_encoding x) = sum_list (map (\<lambda>p. count_str x (fst p)) final_encoding_fixes)"
  using snd_fix_loop_counting[OF final_encoding_fixes_entries, of x 0]
  by (simp add: fix_final_encoding_def)

lemma snd_fix_encoding_complete:
  "snd (fix_encoding_complete x) =
   entries_hit replacements x + self_mapped_hit replacements x +
   (if contains (fst (fix_loop replacements (x, 0))) old_181 \<and>
       \<not> contains (fst (fix_loop replacements (x, 0))) new_181 then 1 else 0) +
   (if contains (fst (quote_181 (fix_loop replacements (x, 0)))) old_191 \<and>
       \<not> contains (fst (quote_181 (fix_loop replacements (x, 0)))) new_191 then 1 else 0) +
   (if contains (fst (quote_191 (quote_181 (fix_loop replacements (x, 0))))) old_template
    then 4 else 0)"
proof -
  obtain T n where T: "fix_loop replacements (x, 0) = (T, n)"
    by (cases "fix_loop replacements (x, 0)")
  with snd_fix_loop[of replacements x 0]
  have n: "n = entries_hit replacements x + self_mapped_hit replacements x" by simp
  obtain c1 n1 where q1: "quote_181 (T, n) = (c1, n1)" by (cases "quote_181 (T, n)")
  then have n1: "n1 = n + (if contains T old_181 \<and> \<not> contains T new_181 then 1 else 0)"
    by (auto simp: quote_181_def quote_181_closed simp del: replace.simps split: if_splits)
  obtain c2 n2 where q2: "quote_191 (c1, n1) = (c2, n2)" by (cases "quote_191 (c1, n1)")
  then have n2: "n2 = n1 + (if contains c1 old_191 \<and> \<not> contains c1 new_191 then 1 else 0)"
    by (auto simp: quote_191_def quote_191_closed simp del: replace.simps split: if_splits)
  have "snd (template_block (c2, n2)) = n2 + (if contains c2 old_template then 4 else 0)"
    by (simp add: template_block_def del: replace.simps)
  with T q1 q2 n n1 n2 show ?thesis
    by (simp add: fix_encoding_complete_def del: replace.simps)
qed


section \<open>Idempotence\<close>

text \<open>
  C1. Idempotence of the content: applying a script's full pass (its table, then its
  special-case patches) to the output of the same pass gives that output again, for every
  input and for each of the three scripts.
\<close>

theorem pass_idempotent:
  "fst (final_fix (fst (final_fix x))) = fst (final_fix x) \<and>
   fst (fix_encoding_complete (fst (fix_encoding_complete x))) = fst (fix_encoding_complete x) \<and>
   fst (fix_final_encoding (fst (fix_final_encoding x))) = fst (fix_final_encoding x)"
  using final_fix_idem fix_encoding_complete_idem fix_final_encoding_idem by blast

section \<open>Order of the table\<close>

text \<open>
  C4, as stated, fails for \<^verbatim>\<open>fix-encoding-complete.py\<close>: its entries do not target
  disjoint substrings. The thirteenth key is the beginning of the seventh, so the result
  depends on which of the two entries runs first. With the seventh entry moved to the end
  the input that is exactly the seventh key comes out different.
\<close>

theorem table_order_matters:
  "mset (take 6 replacements @ drop 7 replacements @ [replacements ! 6]) = mset replacements \<and>
   fst (fix_loop (take 6 replacements @ drop 7 replacements @ [replacements ! 6])
          ([0x93B5, 0x446, 0x5A34, 0x4F79, 0x6309, 0x7EFE, 0x3F], 0)) =
     [0x6267, 0x884C, 0x5A34, 0x4F79, 0x6309, 0x7EFE, 0x3F] \<and>
   fst (fix_loop replacements ([0x93B5, 0x446, 0x5A34, 0x4F79, 0x6309, 0x7EFE, 0x3F], 0)) =
     [0x6267, 0x884C, 0x6D41, 0x6C34, 0x7EBF]"
proof (intro conjI)
  show "mset (take 6 replacements @ drop 7 replacements @ [replacements ! 6]) =
      mset replacements"
    by (rule seventh_moved)
  show "fst (fix_loop (take 6 replacements @ drop 7 replacements @ [replacements ! 6])
          ([0x93B5, 0x446, 0x5A34, 0x4F79, 0x6309, 0x7EFE, 0x3F], 0)) =
     [0x6267, 0x884C, 0x5A34, 0x4F79, 0x6309, 0x7EFE, 0x3F]"
    by (simp add: replacements_def)
  show "fst (fix_loop replacements ([0x93B5, 0x446, 0x5A34, 0x4F79, 0x6309, 0x7EFE, 0x3F], 0)) =
     [0x6267, 0x884C, 0x6D41, 0x6C34, 0x7EBF]"
    by (simp add: replacements_def)
qed

text \<open>
  C4, amended. For the tables of \<^verbatim>\<open>final-fix.py\<close> and \<^verbatim>\<open>fix-final-encoding.py\<close>, whose
  keys and values cannot overlap one another, applying the pairs in any permuted order
  gives the same content as applying them in insertion order, for every input.
\<close>

theorem table_order_irrelevant:
  "(mset perm = mset final_fix_fixes \<longrightarrow>
      fst (fix_loop perm (x, n)) = fst (fix_loop final_fix_fixes (x, n))) \<and>
   (mset perm = mset final_encoding_fixes \<longrightarrow>
      fst (fix_loop_counting perm (x, n)) = fst (fix_loop_counting final_encoding_fixes (x, n)))"
proof (intro conjI impI)
  assume "mset perm = mset final_fix_fixes"
  with final_fix_fixes_commute
  have "fold apply_pair perm x = fold apply_pair final_fix_fixes x"
    by (rule fold_permutation)
  then show "fst (fix_loop perm (x, n)) = fst (fix_loop final_fix_fixes (x, n))"
    by (simp only: fst_fix_loop)
next
  assume "mset perm = mset final_encoding_fixes"
  with final_encoding_fixes_commute
  have "fold apply_pair perm x = fold apply_pair final_encoding_fixes x"
    by (rule fold_permutation)
  then show "fst (fix_loop_counting perm (x, n)) =
      fst (fix_loop_counting final_encoding_fixes (x, n))"
    by (simp only: fst_fix_loop_counting)
qed

theorem table_order_irrelevant_witness:
  "mset (rev final_fix_fixes) = mset final_fix_fixes \<and>
   fst (fix_loop (rev final_fix_fixes) ([0x6769, 0x612F, 0x6D93, 0x3F], 0)) =
     fst (fix_loop final_fix_fixes ([0x6769, 0x612F, 0x6D93, 0x3F], 0)) \<and>
   mset (rev final_encoding_fixes) = mset final_encoding_fixes \<and>
   fst (fix_loop_counting (rev final_encoding_fixes) ([0x6769, 0x612F, 0x6D93, 0x3F], 0)) =
     fst (fix_loop_counting final_encoding_fixes ([0x6769, 0x612F, 0x6D93, 0x3F], 0))"
proof -
  have a: "mset (rev final_fix_fixes) = mset final_fix_fixes"
    and b: "mset (rev final_encoding_fixes) = mset final_encoding_fixes"
    by (rule mset_rev)+
  from a b table_order_irrelevant[of "rev final_fix_fixes" "[0x6769, 0x612F, 0x6D93, 0x3F]" 0]
    table_order_irrelevant[of "rev final_encoding_fixes" "[0x6769, 0x612F, 0x6D93, 0x3F]" 0]
  show ?thesis by blast
qed

section \<open>The reported count\<close>

text \<open>
  C2, as stated, fails for \<^verbatim>\<open>final-fix.py\<close> and for \<^verbatim>\<open>fix-encoding-complete.py\<close>,
  which has the same loop: a key that occurs twice is replaced twice and adds 1 to the
  count, not 2.
\<close>

theorem twice_replaced_counted_once:
  "count_str (([0x6769, 0x612F, 0x6D93, 0x3F] :: ustring) @ [0x6769, 0x612F, 0x6D93, 0x3F])
     [0x6769, 0x612F, 0x6D93, 0x3F] = 2 \<and>
   final_fix ([0x6769, 0x612F, 0x6D93, 0x3F] @ [0x6769, 0x612F, 0x6D93, 0x3F]) =
     ([0x8FD0, 0x884C, 0x4E2D] @ [0x8FD0, 0x884C, 0x4E2D], 1) \<and>
   fst (fix_encoding_complete ([0x6769, 0x612F, 0x6D93, 0x3F] @ [0x6769, 0x612F, 0x6D93, 0x3F])) =
     [0x8FD0, 0x884C, 0x4E2D] @ [0x8FD0, 0x884C, 0x4E2D] \<and>
   snd (fix_encoding_complete ([0x6769, 0x612F, 0x6D93, 0x3F] @ [0x6769, 0x612F, 0x6D93, 0x3F])) = 1"
proof -
  have a: "fix_loop final_fix_fixes
      ([0x6769, 0x612F, 0x6D93, 0x3F] @ [0x6769, 0x612F, 0x6D93, 0x3F], 0) =
      ([0x8FD0, 0x884C, 0x4E2D] @ [0x8FD0, 0x884C, 0x4E2D], 1)"
    by (simp add: final_fix_fixes_def)
  have b: "fix_loop replacements
      ([0x6769, 0x612F, 0x6D93, 0x3F] @ [0x6769, 0x612F, 0x6D93, 0x3F], 0) =
      ([0x8FD0, 0x884C, 0x4E2D] @ [0x8FD0, 0x884C, 0x4E2D], 1)"
    by (simp add: replacements_def)
  have c: "\<not> contains ([0x8FD0, 0x884C, 0x4E2D] @ [0x8FD0, 0x884C, 0x4E2D]) old_181"
    "\<not> contains ([0x8FD0, 0x884C, 0x4E2D] @ [0x8FD0, 0x884C, 0x4E2D]) old_191"
    "\<not> contains ([0x8FD0, 0x884C, 0x4E2D] @ [0x8FD0, 0x884C, 0x4E2D]) old_template"
    by (simp_all add: old_181_def old_191_def old_template_def)
  from a c(1) have "final_fix ([0x6769, 0x612F, 0x6D93, 0x3F] @ [0x6769, 0x612F, 0x6D93, 0x3F]) =
     ([0x8FD0, 0x884C, 0x4E2D] @ [0x8FD0, 0x884C, 0x4E2D], 1)"
    by (simp add: final_fix_def del: replace.simps contains.simps)
  moreover from b c have
    "fix_encoding_complete ([0x6769, 0x612F, 0x6D93, 0x3F] @ [0x6769, 0x612F, 0x6D93, 0x3F]) =
     ([0x8FD0, 0x884C, 0x4E2D] @ [0x8FD0, 0x884C, 0x4E2D], 1)"
    by (simp add: fix_encoding_complete_def quote_181_def quote_191_def template_block_def
        del: replace.simps contains.simps)
  ultimately show ?thesis by simp
qed

text \<open>
  C2, amended. In \<^verbatim>\<open>fix-final-encoding.py\<close> the reported count is the sum, over the table
  entries, of the number of occurrences of the key in the input. In \<^verbatim>\<open>final-fix.py\<close> it
  is the number of table entries whose key occurs in the input, however often, plus 1
  when the dangling-quote patch is applied. In \<^verbatim>\<open>fix-encoding-complete.py\<close>, on an input
  for which no entry with a value equal to its key is met in the content, it is the number
  of entries whose key is in the content when the loop reaches them, however often, plus 1
  for each dangling-quote patch that is applied and 4 for the template block; that number
  of entries is at most the length of the table.
\<close>

theorem reported_count:
  "snd (fix_final_encoding x) =
     sum_list (map (\<lambda>p. count_str x (fst p)) final_encoding_fixes) \<and>
   snd (final_fix x) =
     length (filter (\<lambda>p. contains x (fst p)) final_fix_fixes) +
     (if contains (fst (fix_loop final_fix_fixes (x, 0))) old_181 \<and>
         \<not> contains (fst (fix_loop final_fix_fixes (x, 0))) new_181 then 1 else 0) \<and>
   (self_mapped_hit replacements x = 0 \<longrightarrow>
    snd (fix_encoding_complete x) =
     entries_hit replacements x +
     (if contains (fst (fix_loop replacements (x, 0))) old_181 \<and>
         \<not> contains (fst (fix_loop replacements (x, 0))) new_181 then 1 else 0) +
     (if contains (fst (quote_181 (fix_loop replacements (x, 0)))) old_191 \<and>
         \<not> contains (fst (quote_181 (fix_loop replacements (x, 0)))) new_191 then 1 else 0) +
     (if contains (fst (quote_191 (quote_181 (fix_loop replacements (x, 0))))) old_template
      then 4 else 0)) \<and>
   entries_hit replacements x \<le> length replacements"
proof (intro conjI impI)
  show "snd (fix_final_encoding x) =
     sum_list (map (\<lambda>p. count_str x (fst p)) final_encoding_fixes)"
    by (rule snd_fix_final_encoding)
  show "snd (final_fix x) =
     length (filter (\<lambda>p. contains x (fst p)) final_fix_fixes) +
     (if contains (fst (fix_loop final_fix_fixes (x, 0))) old_181 \<and>
         \<not> contains (fst (fix_loop final_fix_fixes (x, 0))) new_181 then 1 else 0)"
    by (rule snd_final_fix)
  show "entries_hit replacements x \<le> length replacements"
    by (rule entries_hit_le)
next
  assume "self_mapped_hit replacements x = 0"
  with snd_fix_encoding_complete[of x] show "snd (fix_encoding_complete x) =
     entries_hit replacements x +
     (if contains (fst (fix_loop replacements (x, 0))) old_181 \<and>
         \<not> contains (fst (fix_loop replacements (x, 0))) new_181 then 1 else 0) +
     (if contains (fst (quote_181 (fix_loop replacements (x, 0)))) old_191 \<and>
         \<not> contains (fst (quote_181 (fix_loop replacements (x, 0)))) new_191 then 1 else 0) +
     (if contains (fst (quote_191 (quote_181 (fix_loop replacements (x, 0))))) old_template
      then 4 else 0)"
    by simp
qed

theorem reported_count_witness:
  "self_mapped_hit replacements ([0x6769, 0x612F, 0x6D93, 0x3F] @ [0x6769, 0x612F, 0x6D93, 0x3F]) = 0 \<and>
   entries_hit replacements ([0x6769, 0x612F, 0x6D93, 0x3F] @ [0x6769, 0x612F, 0x6D93, 0x3F]) = 1 \<and>
   snd (fix_encoding_complete ([0x6769, 0x612F, 0x6D93, 0x3F] @ [0x6769, 0x612F, 0x6D93, 0x3F])) = 1 \<and>
   snd (final_fix ([0x6769, 0x612F, 0x6D93, 0x3F] @ [0x6769, 0x612F, 0x6D93, 0x3F])) = 1 \<and>
   snd (fix_final_encoding ([0x6769, 0x612F, 0x6D93, 0x3F] @ [0x6769, 0x612F, 0x6D93, 0x3F])) = 2"
proof -
  let ?x = "[0x6769, 0x612F, 0x6D93, 0x3F] @ [0x6769, 0x612F, 0x6D93, 0x3F] :: ustring"
  let ?y = "[0x8FD0, 0x884C, 0x4E2D] @ [0x8FD0, 0x884C, 0x4E2D] :: ustring"
  have a: "fix_loop final_fix_fixes (?x, 0) = (?y, 1)"
    by (simp add: final_fix_fixes_def)
  have b: "fix_loop replacements (?x, 0) = (?y, 1)"
    by (simp add: replacements_def)
  have c: "\<not> contains ?y old_181" "\<not> contains ?y old_191" "\<not> contains ?y old_template"
    by (simp_all add: old_181_def old_191_def old_template_def)
  have s: "self_mapped_hit replacements ?x = 0"
    by (simp add: replacements_def)
  have h: "entries_hit replacements ?x = 1"
    by (simp add: replacements_def)
  have f: "length (filter (\<lambda>p. contains ?x (fst p)) final_fix_fixes) = 1"
    by (simp add: final_fix_fixes_def)
  have g: "sum_list (map (\<lambda>p. count_str ?x (fst p)) final_encoding_fixes) = 2"
    by (simp add: final_encoding_fixes_def)
  have q: "quote_181 (?y, 1) = (?y, 1)"
    using c(1) by (simp add: quote_181_def del: replace.simps contains.simps)
  note rc = reported_count[of ?x]
  from rc g have r3: "snd (fix_final_encoding ?x) = 2"
    by (simp only:)
  from rc have "snd (final_fix ?x) =
     length (filter (\<lambda>p. contains ?x (fst p)) final_fix_fixes) +
     (if contains (fst (fix_loop final_fix_fixes (?x, 0))) old_181 \<and>
         \<not> contains (fst (fix_loop final_fix_fixes (?x, 0))) new_181 then 1 else 0)"
    by blast
  then have r1: "snd (final_fix ?x) = 1"
    unfolding f a fst_conv using c(1) by (simp only: simp_thms if_False)
  from rc s have "snd (fix_encoding_complete ?x) =
     entries_hit replacements ?x +
     (if contains (fst (fix_loop replacements (?x, 0))) old_181 \<and>
         \<not> contains (fst (fix_loop replacements (?x, 0))) new_181 then 1 else 0) +
     (if contains (fst (quote_181 (fix_loop replacements (?x, 0)))) old_191 \<and>
         \<not> contains (fst (quote_181 (fix_loop replacements (?x, 0)))) new_191 then 1 else 0) +
     (if contains (fst (quote_191 (quote_181 (fix_loop replacements (?x, 0))))) old_template
      then 4 else 0)"
    by blast
  then have r2: "snd (fix_encoding_complete ?x) = 1"
    unfolding h b q fst_conv quote_191_def prod.case using c
    by (simp only: simp_thms if_False fst_conv add_0_right)
  from s h r2 r1 r3 show ?thesis
    by (intro conjI)
qed

section \<open>Keys are replaced\<close>




section \<open>Clean input and load failure\<close>

text \<open>
  A content that holds no key of a script's table at all, the key that
  \<^verbatim>\<open>fix-encoding-complete.py\<close> maps to itself included, and on which none of the guards is
  true is returned unchanged with a count of 0.
\<close>

lemma clean_input_unchanged:
  "((\<forall>(k, v)\<in>set final_fix_fixes. \<not> contains x k) \<and>
    \<not> (contains x old_181 \<and> \<not> contains x new_181)
      \<longrightarrow> final_fix x = (x, 0)) \<and>
   ((\<forall>(k, v)\<in>set replacements. \<not> contains x k) \<and>
    \<not> (contains x old_181 \<and> \<not> contains x (old_181 @ [0x22])) \<and>
    \<not> (contains x old_191 \<and> \<not> contains x (old_191 @ [0x22])) \<and>
    \<not> contains x old_template
      \<longrightarrow> fix_encoding_complete x = (x, 0)) \<and>
   ((\<forall>(k, v)\<in>set final_encoding_fixes. \<not> contains x k)
      \<longrightarrow> fix_final_encoding x = (x, 0))"
proof (intro conjI impI)
  assume "(\<forall>(k, v)\<in>set final_fix_fixes. \<not> contains x k) \<and>
    \<not> (contains x old_181 \<and> \<not> contains x new_181)"
  then show "final_fix x = (x, 0)"
    by (auto simp: final_fix_def fix_loop_clean)
next
  assume "(\<forall>(k, v)\<in>set replacements. \<not> contains x k) \<and>
    \<not> (contains x old_181 \<and> \<not> contains x (old_181 @ [0x22])) \<and>
    \<not> (contains x old_191 \<and> \<not> contains x (old_191 @ [0x22])) \<and>
    \<not> contains x old_template"
  then show "fix_encoding_complete x = (x, 0)"
    by (auto simp: fix_encoding_complete_def fix_loop_clean quote_181_def quote_191_def
        template_block_def)
next
  assume "\<forall>(k, v)\<in>set final_encoding_fixes. \<not> contains x k"
  then show "fix_final_encoding x = (x, 0)"
    by (simp add: fix_final_encoding_def fix_loop_counting_clean)
qed

text \<open>
  C5, at the input where it fails. The text \<^verbatim>\<open>title="..."\<close> with the corrected label of
  line 191 (\<open>new_191\<close>, which the script itself writes) is fully corrected: it holds no key
  that the table changes and none of the guards is true on it. \<^verbatim>\<open>fix-encoding-complete.py\<close>
  returns it unchanged and reports 1: the table has an entry that maps the corrected
  label to itself, and the loop counts it.
\<close>

theorem corrected_label_counted:
  "list_all (\<lambda>p. fst p = snd p \<or> \<not> contains new_191 (fst p)) replacements \<and>
   \<not> (contains new_191 old_181 \<and> \<not> contains new_191 (old_181 @ [0x22])) \<and>
   \<not> (contains new_191 old_191 \<and> \<not> contains new_191 (old_191 @ [0x22])) \<and>
   \<not> contains new_191 old_template \<and>
   fix_encoding_complete new_191 = (new_191, 1)"
  using self_mapped_only_191 guards_false_191 fix_loop_new_191
  by (simp add: fix_encoding_complete_def quote_181_def quote_191_def template_block_def
      del: replace.simps contains.simps)

text \<open>
  A read that raises (the file is missing, reading is not permitted, or the decoder
  raises) ends the run with that error and leaves the disk as it was, for every
  transform.
\<close>

lemma read_error_leaves_disk:
  "d file_path = Missing \<or> (\<exists>w bs. d file_path = File False w bs) \<or>
   (\<exists>r w bs. d file_path = File r w bs \<and> decode bs = None) \<Longrightarrow>
   (\<exists>e. read_text decode d file_path = Inl e \<and>
        run_script transform decode encode d = (Inl e, d))"
  by (auto simp: run_script_def read_text_def split: disk_file.splits)

text \<open>
  C7, at the input where it fails. A file that ends in the middle of a multi-byte
  character is not valid UTF-8, but the stream reader does not raise on it: it returns the
  text before the broken character. The run goes on, writes that text back and reports
  success, so the file on disk has lost its last bytes. Here the file holds the byte
  \<open>0x61\<close> followed by \<open>0xE6\<close>, the first of three bytes of a character.
\<close>

theorem truncated_tail_is_rewritten:
  "utf8_stream_decode [0x61, 0xE6] = Some [0x61] \<and>
   run_script final_fix utf8_stream_decode utf8_encode (\<lambda>p. File True True [0x61, 0xE6]) =
     (Inr 0, (\<lambda>p. File True True [0x61, 0xE6])(file_path := File True True [0x61])) \<and>
   run_script fix_encoding_complete utf8_stream_decode utf8_encode
       (\<lambda>p. File True True [0x61, 0xE6]) =
     (Inr 0, (\<lambda>p. File True True [0x61, 0xE6])(file_path := File True True [0x61])) \<and>
   run_script fix_final_encoding utf8_stream_decode utf8_encode
       (\<lambda>p. File True True [0x61, 0xE6]) =
     (Inr 0, (\<lambda>p. File True True [0x61, 0xE6])(file_path := File True True [0x61]))"
  using passes_on_a utf8_encode_a
  by (simp add: run_script_def read_text_def write_text_def)

section \<open>The special-case patches\<close>



text \<open>
  C8. Block replacement. The template block is the last step of the pass of
  \<^verbatim>\<open>fix-encoding-complete.py\<close>. If the content that reaches it (the result \<open>(c, n)\<close> of the
  table and the two quote patches) holds the malformed block \<open>old_template\<close>, the pass
  returns that content with every occurrence of the block replaced by \<open>new_template\<close> and
  the counter plus 4: no malformed block is left, the corrected block is there, and the
  length changes by the difference of the two blocks for each occurrence. If the block is
  absent the pass returns content and counter as they reached the step.
\<close>

theorem block_replacement_in_pass:
  assumes "quote_191 (quote_181 (fix_loop replacements (x, 0))) = (c, n)"
  shows "(contains c old_template \<longrightarrow>
            fix_encoding_complete x = (replace c old_template new_template, n + 4) \<and>
            \<not> contains (fst (fix_encoding_complete x)) old_template \<and>
            contains (fst (fix_encoding_complete x)) new_template \<and>
            length (fst (fix_encoding_complete x)) + count_str c old_template * length old_template
              = length c + count_str c old_template * length new_template) \<and>
         (\<not> contains c old_template \<longrightarrow> fix_encoding_complete x = (c, n))"
proof (intro conjI impI)
  assume c: "contains c old_template"
  with assms show p: "fix_encoding_complete x = (replace c old_template new_template, n + 4)"
    by (simp add: fix_encoding_complete_def template_block_def del: replace.simps)
  show "\<not> contains (fst (fix_encoding_complete x)) old_template"
    unfolding p fst_conv using template_no_self old_template_ne by (rule replace_removes)
  show "contains (fst (fix_encoding_complete x)) new_template"
    unfolding p fst_conv using old_template_ne c by (rule replace_contains_new)
  show "length (fst (fix_encoding_complete x)) + count_str c old_template * length old_template
        = length c + count_str c old_template * length new_template"
    unfolding p fst_conv using old_template_ne by (rule length_replace)
next
  assume "\<not> contains c old_template"
  with assms show "fix_encoding_complete x = (c, n)"
    by (simp add: fix_encoding_complete_def template_block_def)
qed

theorem block_replacement_in_pass_witness:
  "quote_191 (quote_181 (fix_loop replacements (old_template, 0))) = (old_template, 0) \<and>
   contains old_template old_template \<and>
   fix_encoding_complete old_template = (new_template, 4) \<and>
   quote_191 (quote_181 (fix_loop replacements ([], 0))) = ([], 0) \<and>
   \<not> contains [] old_template \<and>
   fix_encoding_complete [] = ([], 0)"
  using block_replacement_in_pass[OF before_block_old_template]
    block_replacement_in_pass[OF before_block_empty]
    before_block_old_template before_block_empty
    contains_self[of old_template] replace_whole[OF old_template_ne, of new_template]
    old_template_ne
  by (simp del: replace.simps)

text \<open>
  C10. Guard shadowing: when the content, after the table has run, holds an occurrence
  of \<open>old_181\<close> that is not followed by the quote and also holds the closed form
  \<open>new_181\<close> somewhere, the patch is skipped: the counter is not incremented for it and
  the unclosed occurrence is still in the output. In \<^verbatim>\<open>final-fix.py\<close> the patch is the last
  step; in \<^verbatim>\<open>fix-encoding-complete.py\<close> the later steps leave the unclosed occurrence
  as it is.
\<close>

theorem closed_form_shadows_repair:
  assumes "fix_loop final_fix_fixes (x, 0) = (c1, n1)"
    and "fix_loop replacements (x, 0) = (c2, n2)"
  shows "(unclosed old_181 0x22 c1 \<and> contains c1 new_181 \<longrightarrow>
            final_fix x = (c1, n1) \<and> unclosed old_181 0x22 (fst (final_fix x))) \<and>
         (unclosed old_181 0x22 c2 \<and> contains c2 new_181 \<longrightarrow>
            quote_181 (c2, n2) = (c2, n2) \<and>
            unclosed old_181 0x22 (fst (fix_encoding_complete x)))"
proof (intro conjI impI)
  assume a: "unclosed old_181 0x22 c1 \<and> contains c1 new_181"
  with assms(1) show ff: "final_fix x = (c1, n1)"
    by (simp add: final_fix_def del: replace.simps)
  with a show "unclosed old_181 0x22 (fst (final_fix x))" by simp
next
  assume a: "unclosed old_181 0x22 c2 \<and> contains c2 new_181"
  then show q: "quote_181 (c2, n2) = (c2, n2)" by (simp add: quote_181_skips)
  from a complete_keeps_unclosed_181[of c2 n2] q assms(2)
  show "unclosed old_181 0x22 (fst (fix_encoding_complete x))"
    by (simp add: fix_encoding_complete_def del: replace.simps)
qed

theorem closed_form_shadows_repair_witness:
  "fix_loop final_fix_fixes (old_181 @ new_181, 0) = (old_181 @ new_181, 0) \<and>
   fix_loop replacements (old_181 @ new_181, 0) = (old_181 @ new_181, 0) \<and>
   unclosed old_181 0x22 (old_181 @ new_181) \<and> contains (old_181 @ new_181) new_181 \<and>
   final_fix (old_181 @ new_181) = (old_181 @ new_181, 0) \<and>
   quote_181 (old_181 @ new_181, 0) = (old_181 @ new_181, 0) \<and>
   unclosed old_181 0x22 (fst (fix_encoding_complete (old_181 @ new_181)))"
  using closed_form_shadows_repair[OF both_forms_final_fix both_forms_complete]
    both_forms_final_fix both_forms_complete both_forms_unclosed
    contains_appendI2[OF contains_self, of old_181 new_181]
  by simp

end
